theory Spec2Isabelle
  imports Main
begin

section \<open>JavaScript values\<close>

text \<open>
  The error handed to \<open>getRetryableErrorDescription\<close> has the TypeScript type
  \<open>unknown\<close>: any JavaScript value. An object is the list of its own properties, each
  key once; a property the object does not own is looked up on \<open>Object.prototype\<close>.
  The values here are finite trees, so a cyclic \<open>cause\<close> chain has no model; the
  function below reads one property of the top-level object and never follows a reference.
\<close>

datatype jsvalue =
    JUndefined
  | JNull
  | JBoolean bool
  | JNumber int
  | JString string
  | JFunction string
  | JObject "(string \<times> jsvalue) list"

text \<open>
  The names every plain object inherits from \<open>Object.prototype\<close>. The operator \<open>in\<close>
  answers true for an inherited name as well as for an own one, and an indexed read
  returns the inherited member.
\<close>

definition object_prototype_keys :: "string list" where
  "object_prototype_keys =
     [''constructor'', ''hasOwnProperty'', ''isPrototypeOf'', ''propertyIsEnumerable'',
      ''toLocaleString'', ''toString'', ''valueOf'', ''__proto__'',
      ''__defineGetter__'', ''__defineSetter__'', ''__lookupGetter__'', ''__lookupSetter__'']"

text \<open>What an indexed read of a string table yields: an own entry or an inherited member.\<close>

datatype description = Described string | Inherited string

definition js_in :: "string \<Rightarrow> (string \<times> string) list \<Rightarrow> bool" where
  "js_in k table = (map_of table k \<noteq> None \<or> k \<in> set object_prototype_keys)"

definition js_index :: "(string \<times> string) list \<Rightarrow> string \<Rightarrow> description option" where
  "js_index table k =
     (case map_of table k of
        Some v \<Rightarrow> Some (Described v)
      | None \<Rightarrow> if k \<in> set object_prototype_keys then Some (Inherited k) else None)"

text \<open>\<open>(error as Record<string, unknown>).code\<close> on an object: the own property, else
  \<open>undefined\<close> (\<open>Object.prototype\<close> has no member of that name).\<close>

definition js_get :: "(string \<times> jsvalue) list \<Rightarrow> string \<Rightarrow> jsvalue" where
  "js_get props k = (case map_of props k of Some v \<Rightarrow> v | None \<Rightarrow> JUndefined)"

section \<open>Retryable PostgreSQL errors (packages/internal/src/db/transaction.ts)\<close>

definition RETRYABLE_PG_ERROR_CODES :: "(string \<times> string) list" where
  "RETRYABLE_PG_ERROR_CODES =
     [(''40001'', ''serialization_failure''),
      (''40003'', ''statement_completion_unknown''),
      (''40P01'', ''deadlock_detected''),
      (''08000'', ''connection_exception''),
      (''08001'', ''sqlclient_unable_to_establish_sqlconnection''),
      (''08003'', ''connection_does_not_exist''),
      (''08004'', ''sqlserver_rejected_establishment_of_sqlconnection''),
      (''08006'', ''connection_failure''),
      (''08P01'', ''protocol_violation''),
      (''57014'', ''query_canceled''),
      (''57P01'', ''admin_shutdown''),
      (''57P02'', ''crash_shutdown''),
      (''57P03'', ''cannot_connect_now''),
      (''53000'', ''insufficient_resources''),
      (''53100'', ''disk_full''),
      (''53200'', ''out_of_memory''),
      (''53300'', ''too_many_connections'')]"

definition retryableClasses :: "(string \<times> string) list" where
  "retryableClasses =
     [(''08'', ''connection_exception''),
      (''40'', ''transaction_rollback''),
      (''53'', ''insufficient_resources''),
      (''57'', ''operator_intervention'')]"

text \<open>
  \<open>errorCode.substring(0, 2)\<close> is \<open>take 2\<close>: the class names are ASCII, and a string
  starts with two given ASCII characters exactly when its bytes do.
  The result \<open>None\<close> is \<open>null\<close>.
\<close>

fun getRetryableErrorDescription :: "jsvalue \<Rightarrow> description option" where
  "getRetryableErrorDescription (JObject props) =
     (case js_get props ''code'' of
        JString errorCode \<Rightarrow>
          if js_in errorCode RETRYABLE_PG_ERROR_CODES
          then js_index RETRYABLE_PG_ERROR_CODES errorCode
          else
            (let errorClass = take 2 errorCode in
             if js_in errorClass retryableClasses
             then (case js_index retryableClasses errorClass of
                     Some (Described name) \<Rightarrow> Some (Described (name @ ''_'' @ errorCode))
                   | Some (Inherited name) \<Rightarrow> Some (Inherited name)
                   | None \<Rightarrow> None)
             else None)
      | _ \<Rightarrow> None)"
| "getRetryableErrorDescription _ = None"

definition isRetryablePostgresError :: "jsvalue \<Rightarrow> bool" where
  "isRetryablePostgresError error = (getRetryableErrorDescription error \<noteq> None)"

text \<open>The four retryable classes, read off the first two characters of a code.\<close>

definition retryable_class :: "string \<Rightarrow> bool" where
  "retryable_class errorCode = (take 2 errorCode \<in> {''40'', ''08'', ''57'', ''53''})"

text \<open>The top-level \<open>code\<close> of a value is a string of a retryable class.\<close>

fun has_retryable_code :: "jsvalue \<Rightarrow> bool" where
  "has_retryable_code (JObject props) =
     (case js_get props ''code'' of JString c \<Rightarrow> retryable_class c | _ \<Rightarrow> False)"
| "has_retryable_code _ = False"

text \<open>The top-level \<open>code\<close> of a value is the name of an inherited member.\<close>

fun has_inherited_code :: "jsvalue \<Rightarrow> bool" where
  "has_inherited_code (JObject props) =
     (case js_get props ''code'' of JString c \<Rightarrow> c \<in> set object_prototype_keys | _ \<Rightarrow> False)"
| "has_inherited_code _ = False"

text \<open>A retryable code sits in the \<open>cause\<close> chain, at most \<open>d\<close> links below the top.\<close>

fun cause_has_retryable_code :: "nat \<Rightarrow> jsvalue \<Rightarrow> bool" where
  "cause_has_retryable_code 0 e = False"
| "cause_has_retryable_code (Suc d) (JObject props) =
     (case map_of props ''cause'' of
        Some c \<Rightarrow> has_retryable_code c \<or> cause_has_retryable_code d c
      | None \<Rightarrow> False)"
| "cause_has_retryable_code (Suc d) _ = False"

section \<open>Free-tier agents (common/src/constants/free-agents.ts)\<close>

definition FREE_TIER_AGENTS :: "string set" where
  "FREE_TIER_AGENTS =
     {''file-picker'', ''file-picker-max'', ''file-lister'', ''researcher-web'',
      ''researcher-docs''}"

text \<open>
  What \<open>parseAgentId\<close> returns; each field may be \<open>undefined\<close>. The parser itself
  (common/src/util/agent-id-parsing) is a parameter of \<open>isFreeAgent\<close> below.
\<close>

record parsed_agent_id =
  publisherId :: "string option"
  agentId :: "string option"
  version :: "string option"

text \<open>\<open>agentId ? FREE_TIER_AGENTS.has(agentId) : false\<close>: \<open>undefined\<close> and the empty
  string are falsy.\<close>

definition isFreeAgent :: "(string \<Rightarrow> parsed_agent_id) \<Rightarrow> string \<Rightarrow> bool" where
  "isFreeAgent parseAgentId fullAgentId =
     (case agentId (parseAgentId fullAgentId) of
        None \<Rightarrow> False
      | Some a \<Rightarrow> if a = [] then False else a \<in> FREE_TIER_AGENTS)"


text \<open>
  Modelled from the spec: \<open>parseAgentId\<close> (common/src/util/agent-id-parsing is not under
  src/), after the agent identifier syntax \<open>[<publisher>/]<id>[@<version>]\<close>. It is one
  parser among those \<open>isFreeAgent\<close> can be given, used to run the three formats.
\<close>

definition split_on :: "char \<Rightarrow> string \<Rightarrow> (string \<times> string) option" where
  "split_on c s =
     (if c \<in> set s then Some (takeWhile (\<lambda>x. x \<noteq> c) s, tl (dropWhile (\<lambda>x. x \<noteq> c) s))
      else None)"

definition nonempty :: "string \<Rightarrow> string option" where
  "nonempty s = (if s = [] then None else Some s)"

definition parseAgentId_spec :: "string \<Rightarrow> parsed_agent_id" where
  "parseAgentId_spec fullAgentId =
     (let (pub, rest) =
            (case split_on CHR ''/'' fullAgentId of
               Some (p, r) \<Rightarrow> (nonempty p, r)
             | None \<Rightarrow> (None, fullAgentId));
          (ident, ver) =
            (case split_on CHR ''@'' rest of
               Some (i, v) \<Rightarrow> (nonempty i, nonempty v)
             | None \<Rightarrow> (nonempty rest, None))
      in \<lparr>publisherId = pub, agentId = ident, version = ver\<rparr>)"

section \<open>Serializable transactions with retry (packages/internal/src/db/transaction.ts)\<close>

datatype isolation_level = ReadUncommitted | ReadCommitted | RepeatableRead | Serializable

record transaction_config =
  isolationLevel :: isolation_level

text \<open>
  \<open>db.transaction(callback, config)\<close> belongs to the database driver: a parameter
  \<open>db\<close> that takes the callback, the configuration and the state of the world, and
  either rejects with an error value (\<open>Inl\<close>) or resolves with the callback's result.
\<close>

type_synonym ('cb, 'w, 'a) database =
  "'cb \<Rightarrow> transaction_config \<Rightarrow> 'w \<Rightarrow> (jsvalue + 'a) \<times> 'w"

text \<open>A database that also writes down the configuration of every call it receives.\<close>

definition traced ::
  "('cb, 'w, 'a) database \<Rightarrow> ('cb, 'w \<times> transaction_config list, 'a) database" where
  "traced db callback config =
     (\<lambda>(w, calls). case db callback config w of (r, w') \<Rightarrow> (r, (w', calls @ [config])))"

text \<open>What one run of \<open>withRetry\<close> did: the final outcome, the outcome of every call
  of the operation in order, what \<open>onRetry\<close> was told, the base delays slept, and the world.\<close>

record ('w, 'a, 'n) retry_run =
  outcome :: "jsvalue + 'a"
  tries :: "(jsvalue + 'a) list"
  notices :: "'n list"
  sleeps :: "nat list"
  world :: 'w

text \<open>
  Modelled from the spec: \<open>withRetry\<close> (common/src/util/promise is not under src/).
  The spec caps the tries at \<open>maxRetries\<close> attempts in all, retries only an error that
  \<open>retryIf\<close> accepts, lets every other error propagate at once, and backs off
  exponentially from \<open>retryDelayMs\<close>; the test of the exhausted retries expects the
  last error to be rethrown after the fifth attempt. The jitter of the delay is random
  and left out: \<open>sleeps\<close> holds the base delays.
\<close>

function withRetry_from ::
  "('w \<Rightarrow> (jsvalue + 'a) \<times> 'w) \<Rightarrow> (jsvalue \<Rightarrow> bool) \<Rightarrow> (jsvalue \<Rightarrow> nat \<Rightarrow> 'n) \<Rightarrow> nat \<Rightarrow> nat
   \<Rightarrow> nat \<Rightarrow> jsvalue \<Rightarrow> ('w, 'a, 'n) retry_run \<Rightarrow> ('w, 'a, 'n) retry_run" where
  "withRetry_from operation retryIf onRetry retryDelayMs maxRetries attempt lastError run =
     (if attempt < maxRetries then
        (case operation (world run) of
           (Inr v, w') \<Rightarrow>
             run\<lparr>outcome := Inr v, tries := tries run @ [Inr v], world := w'\<rparr>
         | (Inl error, w') \<Rightarrow>
             if \<not> retryIf error \<or> attempt = maxRetries - 1
             then run\<lparr>outcome := Inl error, tries := tries run @ [Inl error], world := w'\<rparr>
             else withRetry_from operation retryIf onRetry retryDelayMs maxRetries
                    (attempt + 1) error
                    (run\<lparr>tries := tries run @ [Inl error],
                         notices := notices run @ [onRetry error (attempt + 1)],
                         sleeps := sleeps run @ [retryDelayMs * 2 ^ attempt],
                         world := w'\<rparr>))
      else run\<lparr>outcome := Inl lastError\<rparr>)"
  by pat_completeness auto
termination
  by (relation "measure (\<lambda>(operation, retryIf, onRetry, retryDelayMs, maxRetries, attempt,
        lastError, run). maxRetries - attempt)") auto

definition withRetry ::
  "('w \<Rightarrow> (jsvalue + 'a) \<times> 'w) \<Rightarrow> (jsvalue \<Rightarrow> bool) \<Rightarrow> (jsvalue \<Rightarrow> nat \<Rightarrow> 'n) \<Rightarrow> nat \<Rightarrow> nat
   \<Rightarrow> 'w \<Rightarrow> ('w, 'a, 'n) retry_run" where
  "withRetry operation retryIf onRetry retryDelayMs maxRetries w =
     withRetry_from operation retryIf onRetry retryDelayMs maxRetries 0 JNull
       \<lparr>outcome = Inl JNull, tries = [], notices = [], sleeps = [], world = w\<rparr>"

text \<open>The warning that \<open>onRetry\<close> logs.\<close>

record retry_warning =
  attempt :: nat
  pgErrorCode :: jsvalue
  pgErrorDescription :: description
  baseDelayMs :: nat

text \<open>\<open>(error as Record<string, unknown>)?.code ?? 'unknown'\<close>\<close>

fun error_code_or_unknown :: "jsvalue \<Rightarrow> jsvalue" where
  "error_code_or_unknown (JObject props) =
     (case js_get props ''code'' of
        JUndefined \<Rightarrow> JString ''unknown''
      | JNull \<Rightarrow> JString ''unknown''
      | c \<Rightarrow> c)"
| "error_code_or_unknown _ = JString ''unknown''"

definition onRetry_warning :: "nat \<Rightarrow> jsvalue \<Rightarrow> nat \<Rightarrow> retry_warning" where
  "onRetry_warning INITIAL_RETRY_DELAY error n =
     \<lparr>attempt = n,
      pgErrorCode = error_code_or_unknown error,
      pgErrorDescription =
        (case getRetryableErrorDescription error of
           Some d \<Rightarrow> d | None \<Rightarrow> Described ''unknown''),
      baseDelayMs = INITIAL_RETRY_DELAY * 2 ^ (n - 1)\<rparr>"

text \<open>\<open>INITIAL_RETRY_DELAY\<close> is imported from the same absent module: a parameter.\<close>

definition withSerializableTransaction ::
  "nat \<Rightarrow> ('cb, 'w, 'a) database \<Rightarrow> 'cb \<Rightarrow> 'w \<Rightarrow> ('w, 'a, retry_warning) retry_run" where
  "withSerializableTransaction INITIAL_RETRY_DELAY db callback w =
     withRetry
       (\<lambda>w. db callback \<lparr>isolationLevel = Serializable\<rparr> w)
       (\<lambda>error. getRetryableErrorDescription error \<noteq> None)
       (onRetry_warning INITIAL_RETRY_DELAY)
       INITIAL_RETRY_DELAY
       5
       w"

text \<open>A database that plays a fixed script of outcomes, one per call, as the mocks of
  the tests do; beyond the script it keeps failing with \<open>null\<close>.\<close>

definition scripted :: "(jsvalue + 'a) list \<Rightarrow> ('cb, nat, 'a) database" where
  "scripted script callback config n =
     (if n < length script then (script ! n, Suc n) else (Inl JNull, Suc n))"

definition serializable :: transaction_config where
  "serializable = \<lparr>isolationLevel = Serializable\<rparr>"

definition traced_transaction ::
  "nat \<Rightarrow> ('cb, 'w, 'a) database \<Rightarrow> 'cb \<Rightarrow> 'w
   \<Rightarrow> ('w \<times> transaction_config list, 'a, retry_warning) retry_run" where
  "traced_transaction delay db callback w =
     withSerializableTransaction delay (traced db) callback (w, [])"

text \<open>Two errors of the tests, as \<open>createPostgresError\<close> builds them.\<close>

definition unique_violation :: jsvalue where
  "unique_violation =
     JObject [(''message'', JString ''unique violation''), (''code'', JString ''23505'')]"

definition serialization_failure :: jsvalue where
  "serialization_failure =
     JObject [(''message'', JString ''persistent serialization failure''),
              (''code'', JString ''40001'')]"

section \<open>The agent step: messages, events and state (processStream)\<close>

text \<open>
  Modelled from the spec: the tool call \<open>{id, name, input}\<close>, the tool message
  \<open>{toolCallId, toolName, output}\<close> and the message variants of the data model (the
  message types and \<open>assistantMessage\<close>, \<open>userMessage\<close> are not under src/). The id
  that \<open>generateCompactId\<close> returns is process-unique: the number of ids issued so far.
\<close>

datatype tool_call = ToolCall nat string jsvalue

datatype tool_message = ToolMessage nat string jsvalue

datatype content_part = TextPart string | ToolCallPart tool_call

datatype message =
    SystemMessage string
  | UserMessage string
  | AssistantMessage "content_part list"
  | ToolResult tool_message

fun call_id :: "tool_call \<Rightarrow> nat" where
  "call_id (ToolCall toolCallId toolName input) = toolCallId"

fun call_name :: "tool_call \<Rightarrow> string" where
  "call_name (ToolCall toolCallId toolName input) = toolName"

fun call_input :: "tool_call \<Rightarrow> jsvalue" where
  "call_input (ToolCall toolCallId toolName input) = input"

fun result_id :: "tool_message \<Rightarrow> nat" where
  "result_id (ToolMessage toolCallId toolName output) = toolCallId"

definition assistantMessage :: "string \<Rightarrow> message" where
  "assistantMessage text = AssistantMessage [TextPart text]"

definition assistantToolCall :: "tool_call \<Rightarrow> message" where
  "assistantToolCall toolCall = AssistantMessage [ToolCallPart toolCall]"

definition userMessage :: "string \<Rightarrow> message" where
  "userMessage text = UserMessage text"

text \<open>What \<open>onResponseChunk\<close> is called with: a string or a print-mode event.\<close>

datatype print_event =
    Chunk string
  | TextEvent string
  | ErrorEvent string
  | ReasoningDelta string
  | ToolCallEvent nat string jsvalue
  | ToolResultEvent nat string jsvalue

text \<open>What \<open>streamWithTags.next()\<close> delivers: a chunk, or the generator's return value.\<close>

datatype stream_chunk =
    ReasoningChunk string
  | TextChunk string
  | ErrorChunk string
  | ToolCallChunk string jsvalue

datatype generator_return =
    PromptAborted
  | PromptSuccess "string option"
  | Bare "string option"

text \<open>
  A promise is known by its identity: the stream-done promise, \<open>Promise.resolve()\<close>, or
  the promise of the execution of the tool call with the given id.
\<close>

datatype promise = StreamDonePromise | ResolvedPromise | ToolPromise nat

text \<open>
  A tool execution in flight: its call, the promise it awaits first, the output of the
  handler's own work once that work is done, and whether the execution has recorded its
  result (its promise is then resolved).
\<close>

record task =
  call :: tool_call
  waitsOn :: promise
  work :: "jsvalue option"
  settled :: bool

datatype phase = Streaming | Draining | Committed

text \<open>
  The mutable state of one call of \<open>processStream\<close>: the abort signal, the variables
  and arrays of the function under their own names, \<open>agentState.messageHistory\<close>, the
  calls of \<open>onResponseChunk\<close> in order (\<open>responseChunks\<close>), the tool executions, the
  promise the stream parser is suspended on, and where the function stands: consuming the
  stream, awaiting \<open>previousToolCallFinished\<close> after it, or past the finalization.
\<close>

record state =
  aborted :: bool
  phase :: phase
  abortedAtExit :: bool
  messageHistory :: "message list"
  messageHistoryBeforeStream :: "message list"
  fullResponseChunks :: "string list"
  toolResults :: "tool_message list"
  toolResultsToAddToMessageHistory :: "tool_message list"
  toolCalls :: "tool_call list"
  toolCallsToAddToMessageHistory :: "tool_call list"
  assistantMessages :: "message list"
  hadToolCallError :: bool
  errorMessages :: "message list"
  streamDoneResolved :: bool
  previousToolCallFinished :: promise
  messageId :: "string option"
  idsIssued :: nat
  tasks :: "task list"
  parserAwaits :: "promise option"
  responseChunks :: "print_event list"

text \<open>
  What \<open>processStream\<close> imports and is not under src/, as parameters: the names of the
  native tools, \<open>tryTransformAgentToolCall\<close> (with the template's spawnable agents),
  \<open>withSystemTags\<close>, and the check of a call's name and input by the executors (the
  error message of a call that is refused; the flag tells the custom executor).
\<close>

record params =
  toolNames :: "string list"
  tryTransformAgentToolCall :: "string \<Rightarrow> jsvalue \<Rightarrow> (string \<times> jsvalue) option"
  withSystemTags :: "string \<Rightarrow> string"
  validate :: "bool \<Rightarrow> string \<Rightarrow> jsvalue \<Rightarrow> string option"

section \<open>The agent step: the code of processStream\<close>

definition onResponseChunk :: "print_event \<Rightarrow> state \<Rightarrow> state" where
  "onResponseChunk chunk s = s\<lparr>responseChunks := responseChunks s @ [chunk]\<rparr>"

definition tool_call_error_text :: "string \<Rightarrow> string" where
  "tool_call_error_text msg =
     ''Error during tool call: '' @ msg
       @ ''. Please check the tool name and arguments and try again.''"

text \<open>The handler that \<open>createResponseHandler\<close> returns.\<close>

definition responseHandler :: "params \<Rightarrow> print_event \<Rightarrow> state \<Rightarrow> state" where
  "responseHandler P chunk s =
     onResponseChunk chunk
       (case chunk of
          ErrorEvent msg \<Rightarrow>
            s\<lparr>hadToolCallError := True,
              errorMessages := errorMessages s
                @ [userMessage (withSystemTags P (tool_call_error_text msg))]\<rparr>
        | _ \<Rightarrow> s)"

text \<open>
  Modelled from the spec: \<open>executeToolCall\<close> and \<open>executeCustomToolCall\<close> (the tool
  executor is not under src/), after the dispatch algorithm. A call whose name or input is
  refused emits an error event through the response handler it was given and records
  nothing; the serialization spine is left as it was, so the promise handed in is handed
  back. An accepted call starts an execution that awaits the promise handed in.
\<close>

definition executeToolCall ::
  "params \<Rightarrow> bool \<Rightarrow> string \<Rightarrow> jsvalue \<Rightarrow> promise \<Rightarrow> nat \<Rightarrow> state \<Rightarrow> promise \<times> state" where
  "executeToolCall P custom toolName input previous toolCallId s =
     (case validate P custom toolName input of
        Some msg \<Rightarrow> (previous, responseHandler P (ErrorEvent msg) s)
      | None \<Rightarrow>
          (ToolPromise toolCallId,
           s\<lparr>tasks := tasks s
               @ [\<lparr>call = ToolCall toolCallId toolName input, waitsOn = previous,
                    work = None, settled = False\<rparr>]\<rparr>))"

text \<open>
  Which executor \<open>onTagEnd\<close> calls, and with what name and input: \<open>executeToolCall\<close>
  for a native tool or a call transformed into \<open>spawn_agents\<close>, \<open>executeCustomToolCall\<close>
  (the flag) for the rest.
\<close>

definition executor_arguments :: "params \<Rightarrow> string \<Rightarrow> jsvalue \<Rightarrow> bool \<times> string \<times> jsvalue" where
  "executor_arguments P toolName input =
     (let isNativeTool = (toolName \<in> set (toolNames P));
          transformed =
            (if \<not> isNativeTool then tryTransformAgentToolCall P toolName input else None)
      in if isNativeTool \<or> transformed \<noteq> None
         then (case transformed of
                 Some (name, inp) \<Rightarrow> (False, name, inp)
               | None \<Rightarrow> (False, toolName, input))
         else (True, toolName, input))"

text \<open>
  The promise a new execution is chained on: \<open>previousToolCallFinished\<close> as it is read
  when the call is dispatched, or, for the first call in XML mode (it still is the
  stream-done promise), a resolved promise.
\<close>

definition previousPromise :: "bool \<Rightarrow> state \<Rightarrow> promise" where
  "previousPromise isXmlMode s =
     (if isXmlMode \<and> previousToolCallFinished s = StreamDonePromise
      then ResolvedPromise else previousToolCallFinished s)"

text \<open>
  \<open>onTagEnd\<close> of the callback that \<open>createToolExecutionCallback(toolName, isXmlMode)\<close>
  returns. The result holds the promise the call is left awaiting (\<open>await toolPromise\<close>
  in XML mode), or \<open>None\<close> when it has run to its end.
\<close>

definition onTagEnd ::
  "params \<Rightarrow> string \<Rightarrow> bool \<Rightarrow> jsvalue \<Rightarrow> state \<Rightarrow> promise option \<times> state" where
  "onTagEnd P toolName isXmlMode input s =
     (if aborted s then (None, s)
      else
        let toolCallId = idsIssued s;
            s1 = s\<lparr>idsIssued := Suc (idsIssued s)\<rparr>;
            (toolPromise, s2) =
              (case executor_arguments P toolName input of
                 (custom, name, inp) \<Rightarrow>
                   executeToolCall P custom name inp (previousPromise isXmlMode s1)
                     toolCallId s1);
            s3 = s2\<lparr>previousToolCallFinished := toolPromise\<rparr>
        in (if isXmlMode then Some toolPromise else None, s3))"

definition executeXmlToolCall ::
  "params \<Rightarrow> string \<Rightarrow> jsvalue \<Rightarrow> state \<Rightarrow> promise option \<times> state" where
  "executeXmlToolCall P toolName input s =
     (if aborted s then (None, s) else onTagEnd P toolName True input s)"

text \<open>The finalization: the message history is rebuilt from the snapshot.
  (\<open>buildArray\<close> drops falsy entries only, and a message is an object.)\<close>

definition finalization :: "state \<Rightarrow> state" where
  "finalization s =
     s\<lparr>messageHistory :=
          messageHistoryBeforeStream s
          @ assistantMessages s
          @ map assistantToolCall (toolCallsToAddToMessageHistory s)
          @ map ToolResult (toolResultsToAddToMessageHistory s)
          @ errorMessages s,
       phase := Committed\<rparr>"

section \<open>The agent step: promises and the event loop\<close>

definition resolved :: "state \<Rightarrow> promise \<Rightarrow> bool" where
  "resolved s p =
     (case p of
        StreamDonePromise \<Rightarrow> streamDoneResolved s
      | ResolvedPromise \<Rightarrow> True
      | ToolPromise k \<Rightarrow> (\<exists>t \<in> set (tasks s). call_id (call t) = k \<and> settled t))"

text \<open>An execution can go on: what it awaits is resolved and its handler has an output.\<close>

definition ready :: "state \<Rightarrow> task \<Rightarrow> bool" where
  "ready s t = (\<not> settled t \<and> work t \<noteq> None \<and> resolved s (waitsOn t))"

text \<open>
  Modelled from the spec: the end of an execution (dispatch step 4). It records the tool
  call and the tool result, emits the \<open>tool_call\<close> event and then the \<open>tool_result\<close>
  event through the response handler, and its promise is resolved.
\<close>

definition mark_settled :: "nat \<Rightarrow> task \<Rightarrow> task" where
  "mark_settled k t = (if call_id (call t) = k then t\<lparr>settled := True\<rparr> else t)"

definition record_result :: "params \<Rightarrow> task \<Rightarrow> state \<Rightarrow> state" where
  "record_result P t s =
     (case work t of
        None \<Rightarrow> s
      | Some output \<Rightarrow>
          let toolCallId = call_id (call t);
              toolName = call_name (call t);
              toolResult = ToolMessage toolCallId toolName output
          in responseHandler P (ToolResultEvent toolCallId toolName output)
               (responseHandler P (ToolCallEvent toolCallId toolName (call_input (call t)))
                  (s\<lparr>toolCalls := toolCalls s @ [call t],
                      toolCallsToAddToMessageHistory :=
                        toolCallsToAddToMessageHistory s @ [call t],
                      toolResults := toolResults s @ [toolResult],
                      toolResultsToAddToMessageHistory :=
                        toolResultsToAddToMessageHistory s @ [toolResult],
                      tasks := map (mark_settled toolCallId) (tasks s)\<rparr>)))"

definition settle_step :: "params \<Rightarrow> state \<Rightarrow> state" where
  "settle_step P s =
     (case find (ready s) (tasks s) of None \<Rightarrow> s | Some t \<Rightarrow> record_result P t s)"

text \<open>Every execution that can go on does, until none can: at most one round per task.\<close>

definition settle :: "params \<Rightarrow> state \<Rightarrow> state" where
  "settle P s = (settle_step P ^^ length (tasks s)) s"

text \<open>
  After an event the continuations that became runnable run: the executions, the parser
  when the promise it awaits is resolved, and the finalization when
  \<open>await previousToolCallFinished\<close> returns. The step is observed up to its
  finalization: past it the state stays as \<open>processStream\<close> returned it.
\<close>

definition wake :: "params \<Rightarrow> state \<Rightarrow> state" where
  "wake P s =
     (if phase s = Committed then s else
      let s1 = settle P s;
          s2 = (case parserAwaits s1 of
                  Some p \<Rightarrow> if resolved s1 p then s1\<lparr>parserAwaits := None\<rparr> else s1
                | None \<Rightarrow> s1)
      in if phase s2 = Draining \<and> resolved s2 (previousToolCallFinished s2)
         then finalization s2 else s2)"

text \<open>Leaving the stream loop: \<open>if (!signal.aborted) { resolveStreamDonePromise(); await
  previousToolCallFinished }\<close>, then the finalization.\<close>

definition leave_loop :: "params \<Rightarrow> state \<Rightarrow> state" where
  "leave_loop P s =
     (if \<not> aborted s
      then wake P (s\<lparr>abortedAtExit := False, streamDoneResolved := True, phase := Draining\<rparr>)
      else finalization (s\<lparr>abortedAtExit := True\<rparr>))"

text \<open>The body of the stream loop for a chunk, then the abort check that opens the next
  iteration.\<close>

definition loop_body :: "params \<Rightarrow> stream_chunk \<Rightarrow> state \<Rightarrow> state" where
  "loop_body P chunk s =
     (let s1 = (case chunk of
                  ReasoningChunk text \<Rightarrow> onResponseChunk (ReasoningDelta text) s
                | TextChunk text \<Rightarrow>
                    (onResponseChunk (Chunk text) s)
                      \<lparr>fullResponseChunks := fullResponseChunks s @ [text]\<rparr>
                | ErrorChunk msg \<Rightarrow>
                    (onResponseChunk (ErrorEvent msg) s)
                      \<lparr>hadToolCallError := True,
                        errorMessages := errorMessages s
                          @ [userMessage (withSystemTags P (tool_call_error_text msg))]\<rparr>
                | ToolCallChunk toolName input \<Rightarrow> s)
      in if aborted s1 then leave_loop P s1 else s1)"

definition loop_done :: "params \<Rightarrow> generator_return \<Rightarrow> state \<Rightarrow> state" where
  "loop_done P chunk s =
     leave_loop P
       (s\<lparr>messageId :=
            (case chunk of
               PromptAborted \<Rightarrow> None
             | PromptSuccess v \<Rightarrow> v
             | Bare v \<Rightarrow> v)\<rparr>)"

text \<open>The \<open>onResponseChunk\<close> that \<open>processStream\<close> hands to the stream parser, for the
  parser's \<open>text\<close> and \<open>error\<close> chunks.\<close>

definition parser_text :: "string \<Rightarrow> state \<Rightarrow> state" where
  "parser_text text s =
     onResponseChunk (TextEvent text)
       (if text \<noteq> [] then s\<lparr>assistantMessages := assistantMessages s @ [assistantMessage text]\<rparr>
        else s)"

definition parser_error :: "string \<Rightarrow> state \<Rightarrow> state" where
  "parser_error msg s = onResponseChunk (ErrorEvent msg) s"

text \<open>
  What happens to a step from outside, in the order it happens: the signal is aborted;
  the stream parser calls one of the callbacks it was given (its \<open>onResponseChunk\<close>, a
  processor's \<open>onTagEnd\<close> for a structured call, \<open>executeXmlToolCall\<close> for an inline
  one), yields a chunk to the loop or returns; the own work of the handler of a tool
  call ends with an output.
\<close>

datatype event =
    Abort
  | ParserText string
  | ParserError string
  | TagEnd string jsvalue
  | XmlToolCall string jsvalue
  | Yield stream_chunk
  | Done generator_return
  | HandlerDone nat jsvalue

text \<open>
  Modelled from the spec: the stream parser (\<open>processStreamWithTools\<close> is not under
  src/) runs only while the loop awaits \<open>next()\<close>, and awaits \<open>executeXmlToolCall\<close>
  before it goes on. An event that cannot happen in a state (the parser is suspended or
  the loop has ended; no handler with that id is at work) leaves the state as it is.
\<close>

definition parser_runs :: "state \<Rightarrow> bool" where
  "parser_runs s = (phase s = Streaming \<and> parserAwaits s = None)"

definition handler_done :: "nat \<Rightarrow> jsvalue \<Rightarrow> state \<Rightarrow> state" where
  "handler_done k output s =
     s\<lparr>tasks := map (\<lambda>t. if call_id (call t) = k \<and> work t = None
                          then t\<lparr>work := Some output\<rparr> else t) (tasks s)\<rparr>"

fun react :: "params \<Rightarrow> event \<Rightarrow> state \<Rightarrow> state" where
  "react P Abort s = s\<lparr>aborted := True\<rparr>"
| "react P (ParserText text) s = (if parser_runs s then parser_text text s else s)"
| "react P (ParserError msg) s = (if parser_runs s then parser_error msg s else s)"
| "react P (TagEnd toolName input) s =
     (if parser_runs s then snd (onTagEnd P toolName False input s) else s)"
| "react P (XmlToolCall toolName input) s =
     (if parser_runs s
      then (case executeXmlToolCall P toolName input s of
              (awaited, s') \<Rightarrow> s'\<lparr>parserAwaits := awaited\<rparr>)
      else s)"
| "react P (Yield chunk) s = (if parser_runs s then loop_body P chunk s else s)"
| "react P (Done chunk) s = (if parser_runs s then loop_done P chunk s else s)"
| "react P (HandlerDone k output) s = handler_done k output s"

definition step :: "params \<Rightarrow> state \<Rightarrow> event \<Rightarrow> state" where
  "step P s e = (if phase s = Committed then s else wake P (react P e s))"

text \<open>The state in which \<open>processStream\<close> enters the stream loop, and the first abort
  check of the loop.\<close>

definition initial :: "message list \<Rightarrow> string \<Rightarrow> bool \<Rightarrow> state" where
  "initial history fullResponse signalAborted =
     \<lparr>aborted = signalAborted, phase = Streaming, abortedAtExit = False,
      messageHistory = history, messageHistoryBeforeStream = history,
      fullResponseChunks = [fullResponse],
      toolResults = [], toolResultsToAddToMessageHistory = [],
      toolCalls = [], toolCallsToAddToMessageHistory = [],
      assistantMessages = [], hadToolCallError = False, errorMessages = [],
      streamDoneResolved = False, previousToolCallFinished = StreamDonePromise,
      messageId = None, idsIssued = 0, tasks = [], parserAwaits = None,
      responseChunks = []\<rparr>"

definition enter :: "params \<Rightarrow> message list \<Rightarrow> string \<Rightarrow> bool \<Rightarrow> state" where
  "enter P history fullResponse signalAborted =
     (let s = initial history fullResponse signalAborted
      in if aborted s then leave_loop P s else s)"

definition processStream ::
  "params \<Rightarrow> message list \<Rightarrow> string \<Rightarrow> bool \<Rightarrow> event list \<Rightarrow> state" where
  "processStream P history fullResponse signalAborted events =
     foldl (step P) (enter P history fullResponse signalAborted) events"

section \<open>The agent step: what holds in every state\<close>

text \<open>The answer of the executor's check to a call as \<open>onTagEnd\<close> hands it over.\<close>

definition refusal :: "params \<Rightarrow> string \<Rightarrow> jsvalue \<Rightarrow> string option" where
  "refusal P toolName input =
     (case executor_arguments P toolName input of (custom, name, inp) \<Rightarrow> validate P custom name inp)"

definition task_id :: "task \<Rightarrow> nat" where
  "task_id t = call_id (call t)"

text \<open>The tool message and the two events that an execution records at its end.\<close>

definition output_of :: "task \<Rightarrow> jsvalue" where
  "output_of t = (case work t of Some output \<Rightarrow> output | None \<Rightarrow> JUndefined)"

definition result_of :: "task \<Rightarrow> tool_message" where
  "result_of t = ToolMessage (task_id t) (call_name (call t)) (output_of t)"

definition events_of :: "task \<Rightarrow> print_event list" where
  "events_of t =
     [ToolCallEvent (task_id t) (call_name (call t)) (call_input (call t)),
      ToolResultEvent (task_id t) (call_name (call t)) (output_of t)]"

fun is_tool_event :: "print_event \<Rightarrow> bool" where
  "is_tool_event (ToolCallEvent toolCallId toolName input) = True"
| "is_tool_event (ToolResultEvent toolCallId toolName output) = True"
| "is_tool_event _ = False"

text \<open>
  The serialization spine: every execution awaits the promise of the execution started
  before it, the first one awaits \<open>p\<close>, and an execution has settled only if the one
  before it has (\<open>before\<close> tells whether it has) and its own work is done.
\<close>

fun chain :: "promise \<Rightarrow> bool \<Rightarrow> task list \<Rightarrow> bool" where
  "chain p before [] = True"
| "chain p before (t # ts) =
     (waitsOn t = p \<and> (settled t \<longrightarrow> before \<and> work t \<noteq> None)
      \<and> chain (ToolPromise (task_id t)) (settled t) ts)"

text \<open>The promise at the root of the spine.\<close>

definition root_of :: "state \<Rightarrow> promise" where
  "root_of s = (case tasks s of [] \<Rightarrow> previousToolCallFinished s | t # ts \<Rightarrow> waitsOn t)"

definition spine_ok :: "state \<Rightarrow> bool" where
  "spine_ok s =
     ((root_of s = StreamDonePromise \<or> root_of s = ResolvedPromise)
      \<and> chain (root_of s) True (tasks s)
      \<and> (tasks s \<noteq> [] \<longrightarrow> previousToolCallFinished s = ToolPromise (task_id (last (tasks s))))
      \<and> sorted_wrt (<) (map task_id (tasks s))
      \<and> (\<forall>t \<in> set (tasks s). task_id t < idsIssued s))"

text \<open>The arrays and the tool events hold what the settled executions recorded, in the
  order the executions were started.\<close>

definition records_ok :: "state \<Rightarrow> bool" where
  "records_ok s =
     (toolCalls s = map call (filter settled (tasks s))
      \<and> toolCallsToAddToMessageHistory s = map call (filter settled (tasks s))
      \<and> toolResults s = map result_of (filter settled (tasks s))
      \<and> toolResultsToAddToMessageHistory s = map result_of (filter settled (tasks s))
      \<and> filter is_tool_event (responseChunks s)
          = concat (map events_of (filter settled (tasks s))))"

text \<open>The stream-done promise is resolved only once the loop has ended, and until then
  no execution of a spine rooted in it has settled.\<close>

definition gate_ok :: "state \<Rightarrow> bool" where
  "gate_ok s =
     ((streamDoneResolved s \<longrightarrow> phase s \<noteq> Streaming)
      \<and> (root_of s = StreamDonePromise \<and> \<not> streamDoneResolved s \<longrightarrow>
           (\<forall>t \<in> set (tasks s). \<not> settled t)))"

text \<open>The message history is the snapshot until the finalization, and what the
  finalization built from then on; a step that was not aborted when it left the loop is
  finalized only with every execution settled.\<close>

definition history_ok :: "message list \<Rightarrow> state \<Rightarrow> bool" where
  "history_ok history s =
     (messageHistoryBeforeStream s = history
      \<and> (phase s \<noteq> Committed \<longrightarrow> messageHistory s = history)
      \<and> (phase s = Committed \<longrightarrow>
            messageHistory s =
              history @ assistantMessages s
              @ map assistantToolCall (toolCallsToAddToMessageHistory s)
              @ map ToolResult (toolResultsToAddToMessageHistory s)
              @ errorMessages s)
      \<and> (phase s = Committed \<and> \<not> abortedAtExit s \<longrightarrow> (\<forall>t \<in> set (tasks s). settled t))
      \<and> (phase s = Committed \<and> abortedAtExit s \<longrightarrow> aborted s)
      \<and> (phase s = Draining \<longrightarrow> \<not> abortedAtExit s)
      \<and> (phase s \<noteq> Streaming \<longrightarrow> parserAwaits s = None))"

definition invariant :: "message list \<Rightarrow> state \<Rightarrow> bool" where
  "invariant history s = (spine_ok s \<and> records_ok s \<and> gate_ok s \<and> history_ok history s)"

text \<open>Every tool message follows an assistant tool-call part of the same id: the ids in
  \<open>seen\<close> are those of the tool-call parts so far.\<close>

fun part_ids :: "content_part list \<Rightarrow> nat list" where
  "part_ids [] = []"
| "part_ids (TextPart text # parts) = part_ids parts"
| "part_ids (ToolCallPart toolCall # parts) = call_id toolCall # part_ids parts"

fun paired :: "nat list \<Rightarrow> message list \<Rightarrow> bool" where
  "paired seen [] = True"
| "paired seen (AssistantMessage parts # ms) = paired (part_ids parts @ seen) ms"
| "paired seen (ToolResult m # ms) = (result_id m \<in> set seen \<and> paired seen ms)"
| "paired seen (m # ms) = paired seen ms"

text \<open>The ids of the tool-call parts seen once the messages \<open>ms\<close> have gone by.\<close>

fun seen_after :: "nat list \<Rightarrow> message list \<Rightarrow> nat list" where
  "seen_after seen [] = seen"
| "seen_after seen (AssistantMessage parts # ms) = seen_after (part_ids parts @ seen) ms"
| "seen_after seen (m # ms) = seen_after seen ms"

fun is_tool_result :: "message \<Rightarrow> bool" where
  "is_tool_result (ToolResult m) = True"
| "is_tool_result _ = False"

text \<open>The text messages and the error messages of a step hold no tool message.\<close>

definition plain_ok :: "state \<Rightarrow> bool" where
  "plain_ok s =
     (\<not> list_ex is_tool_result (assistantMessages s)
      \<and> \<not> list_ex is_tool_result (errorMessages s))"

text \<open>The two events of a recorded tool call, from the call and its tool message.\<close>

fun events_for :: "tool_call \<times> tool_message \<Rightarrow> print_event list" where
  "events_for (ToolCall toolCallId toolName input, ToolMessage resultId resultName output) =
     [ToolCallEvent toolCallId toolName input, ToolResultEvent resultId resultName output]"

text \<open>
  What the executions alone can change between two states: executions settle, and their
  events are added to the response chunks. The rest of the state, but the parser's
  suspension, the phase and the message history, is the same.
\<close>

definition progress :: "state \<Rightarrow> state \<Rightarrow> bool" where
  "progress s s' =
     (aborted s' = aborted s
      \<and> idsIssued s' = idsIssued s
      \<and> map call (tasks s') = map call (tasks s)
      \<and> map waitsOn (tasks s') = map waitsOn (tasks s)
      \<and> map work (tasks s') = map work (tasks s)
      \<and> previousToolCallFinished s' = previousToolCallFinished s
      \<and> errorMessages s' = errorMessages s
      \<and> hadToolCallError s' = hadToolCallError s
      \<and> assistantMessages s' = assistantMessages s
      \<and> fullResponseChunks s' = fullResponseChunks s
      \<and> messageId s' = messageId s
      \<and> streamDoneResolved s' = streamDoneResolved s
      \<and> abortedAtExit s' = abortedAtExit s
      \<and> messageHistoryBeforeStream s' = messageHistoryBeforeStream s
      \<and> (\<exists>evs. responseChunks s' = responseChunks s @ evs \<and> list_all is_tool_event evs)
      \<and> (\<exists>n. toolCallsToAddToMessageHistory s'
                = toolCallsToAddToMessageHistory s @ n)
      \<and> (\<exists>n. toolResultsToAddToMessageHistory s'
                = toolResultsToAddToMessageHistory s @ n))"

text \<open>
  How a step moves on from one state to a later one: ids are issued and executions are
  started with them, the error messages, the response chunks and the recorded calls and
  results grow at their end, the error flag stays once set; and once the signal is aborted it stays aborted, no
  id is issued and no execution is started.
\<close>

definition advance :: "state \<Rightarrow> state \<Rightarrow> bool" where
  "advance s s' =
     (idsIssued s \<le> idsIssued s'
      \<and> (\<exists>new. map call (tasks s') = map call (tasks s) @ new
             \<and> list_all (\<lambda>c. idsIssued s \<le> call_id c) new)
      \<and> (\<exists>new. map waitsOn (tasks s') = map waitsOn (tasks s) @ new)
      \<and> (\<exists>more. errorMessages s' = errorMessages s @ more)
      \<and> (\<exists>more. responseChunks s' = responseChunks s @ more)
      \<and> (hadToolCallError s \<longrightarrow> hadToolCallError s')
      \<and> (aborted s \<longrightarrow>
            aborted s' \<and> idsIssued s' = idsIssued s \<and> map call (tasks s') = map call (tasks s))
      \<and> (\<exists>n. toolCallsToAddToMessageHistory s' = toolCallsToAddToMessageHistory s @ n)
      \<and> (\<exists>n. toolResultsToAddToMessageHistory s' = toolResultsToAddToMessageHistory s @ n)
      \<and> messageHistoryBeforeStream s' = messageHistoryBeforeStream s)"

text \<open>The \<open>tool_result\<close> event of the call with id \<open>k\<close> is among the response chunks.\<close>

fun is_result_of :: "nat \<Rightarrow> print_event \<Rightarrow> bool" where
  "is_result_of k (ToolResultEvent toolCallId toolName output) = (toolCallId = k)"
| "is_result_of k _ = False"

definition has_result :: "nat \<Rightarrow> state \<Rightarrow> bool" where
  "has_result k s = list_ex (is_result_of k) (responseChunks s)"

text \<open>
  Since the state \<open>s0\<close>, in which the inline call with id \<open>k\<close> was dispatched: either
  the result of the call has been emitted, or the loop still consumes the stream with the
  parser suspended on the promise of the call, and nothing has happened but tool events
  of executions: no text message, no response text, no error message.
\<close>

definition suspended_until_result :: "nat \<Rightarrow> state \<Rightarrow> state \<Rightarrow> bool" where
  "suspended_until_result k s0 s =
     (has_result k s
      \<or> (phase s = Streaming \<and> parserAwaits s = Some (ToolPromise k)
          \<and> assistantMessages s = assistantMessages s0
          \<and> fullResponseChunks s = fullResponseChunks s0
          \<and> errorMessages s = errorMessages s0
          \<and> (\<exists>evs. responseChunks s = responseChunks s0 @ evs \<and> list_all is_tool_event evs)))"

section \<open>The agent step: example runs\<close>

text \<open>
  Parameters for running the model: three native tools, no spawnable agent, system tags
  around a text, and a check that refuses every custom tool and a \<open>spawn_agents\<close> call
  whose input is not an object.
\<close>

definition example_params :: params where
  "example_params =
     \<lparr>toolNames = [''read_files'', ''spawn_agents'', ''end_turn''],
      tryTransformAgentToolCall = (\<lambda>toolName input. None),
      withSystemTags = (\<lambda>text. ''<system>'' @ text @ ''</system>''),
      validate = (\<lambda>custom toolName input.
        if custom then Some (''Tool '' @ toolName @ '' not found'')
        else if toolName = ''spawn_agents'' \<and> (case input of JObject props \<Rightarrow> False | _ \<Rightarrow> True)
        then Some ''Invalid parameters for spawn_agents''
        else None)\<rparr>"

text \<open>Two structured calls; the handler of the second is done before the stream ends,
  the handler of the first after it.\<close>

definition two_tools :: "event list" where
  "two_tools =
     [ParserText ''ok: '',
      TagEnd ''read_files'' (JString ''a.ts''),
      TagEnd ''end_turn'' JNull,
      HandlerDone 1 JNull,
      Yield (TextChunk ''ok: ''),
      Done (PromptSuccess (Some ''message-1'')),
      HandlerDone 0 (JString ''x'')]"

definition example_run :: "event list \<Rightarrow> state" where
  "example_run events = processStream example_params [UserMessage ''list files''] [] False events"

text \<open>A structured \<open>spawn_agents\<close> call with a string for its input, after some text.\<close>

definition refused_spawn :: "event list" where
  "refused_spawn =
     [ParserText ''on it'',
      TagEnd ''spawn_agents'' (JString ''not-an-array''),
      Yield (ToolCallChunk ''spawn_agents'' (JString ''not-an-array'')),
      Done (PromptSuccess (Some ''message-2''))]"

text \<open>An inline call whose handler is still at work when the signal is aborted; a second
  inline call is parsed after the abort.\<close>

definition inflight_abort :: "event list" where
  "inflight_abort =
     [XmlToolCall ''read_files'' (JString ''a.ts''),
      Abort,
      HandlerDone 0 (JString ''x''),
      XmlToolCall ''end_turn'' JNull,
      Done PromptAborted]"

text \<open>An inline call first, with text after its closing tag, then a structured call.\<close>

definition inline_first :: "event list" where
  "inline_first =
     [XmlToolCall ''read_files'' (JString ''a.ts''),
      ParserText ''too early'',
      HandlerDone 0 (JString ''x''),
      ParserText ''after the tag'',
      TagEnd ''end_turn'' JNull,
      HandlerDone 1 JNull]"

section \<open>Properties of the retryable-error classification\<close>

lemma in_table_retryable_class:
  "map_of RETRYABLE_PG_ERROR_CODES c = Some v \<Longrightarrow> retryable_class c"
  by (auto simp: RETRYABLE_PG_ERROR_CODES_def retryable_class_def split: if_splits)

lemma prototype_keys_not_class [simp]:
  "take 2 c \<notin> set object_prototype_keys"
proof
  assume "take 2 c \<in> set object_prototype_keys"
  then have "\<exists>k \<in> set object_prototype_keys. length k \<le> 2"
    by (metis length_take min.cobounded2)
  then show False
    by (simp add: object_prototype_keys_def)
qed

lemma class_lookup:
  "map_of retryableClasses (take 2 c) \<noteq> None \<longleftrightarrow> retryable_class c"
  by (auto simp: retryableClasses_def retryable_class_def split: if_splits)

text \<open>A listed code is described by its own name.\<close>

lemma own_code_description:
  "map_of RETRYABLE_PG_ERROR_CODES c = Some v \<Longrightarrow> js_get props ''code'' = JString c \<Longrightarrow>
   getRetryableErrorDescription (JObject props) = Some (Described v)"
  by (simp add: js_in_def js_index_def)

text \<open>An unlisted code of a retryable class is described by the name of the class and the
  code.\<close>

lemma class_fallback_description:
  "map_of RETRYABLE_PG_ERROR_CODES c = None \<Longrightarrow> c \<notin> set object_prototype_keys \<Longrightarrow>
   map_of retryableClasses (take 2 c) = Some name \<Longrightarrow> js_get props ''code'' = JString c \<Longrightarrow>
   getRetryableErrorDescription (JObject props) = Some (Described (name @ ''_'' @ c))"
  by (simp add: js_in_def js_index_def)

text \<open>Away from the inherited names, a description is returned exactly for the codes of
  the four classes.\<close>

lemma description_iff:
  "\<not> has_inherited_code e \<Longrightarrow> getRetryableErrorDescription e \<noteq> None \<longleftrightarrow> has_retryable_code e"
proof (cases e)
  case (JObject props)
  assume ni: "\<not> has_inherited_code e"
  show ?thesis
  proof (cases "js_get props ''code''")
    case (JString c)
    with ni JObject have nk: "c \<notin> set object_prototype_keys" by simp
    show ?thesis
      using JObject JString nk in_table_retryable_class [of c] class_lookup [of c]
      by (auto simp: js_in_def js_index_def Let_def split: option.splits description.splits)
  qed (simp_all add: JObject)
qed simp_all

text \<open>The result is a function of the top-level \<open>code\<close> alone, and an error with no
  retryable code of its own (and no inherited name for a code) is not retryable, whatever
  its \<open>cause\<close> chain holds.\<close>

lemma top_level_code_only:
  "(js_get ps ''code'' = js_get qs ''code'' \<longrightarrow>
      getRetryableErrorDescription (JObject ps) = getRetryableErrorDescription (JObject qs))
   \<and> (cause_has_retryable_code d e \<and> \<not> has_retryable_code e \<and> \<not> has_inherited_code e \<longrightarrow>
      getRetryableErrorDescription e = None \<and> \<not> isRetryablePostgresError e)"
  using description_iff [of e] by (auto simp: isRetryablePostgresError_def)

text \<open>
  C5. The claim: a description is returned if and only if the value is an object whose
  \<open>code\<close> is a string of class 40, 08, 57 or 53. The test \<open>errorCode in
  RETRYABLE_PG_ERROR_CODES\<close> also accepts the names inherited from \<open>Object.prototype\<close>:
  for the error \<open>{ code: 'toString' }\<close> the function returns the inherited member, which
  is not \<open>null\<close>, so the error counts as retryable although its code is of no retryable
  class.
\<close>

theorem inherited_code_is_described:
  "getRetryableErrorDescription (JObject [(''code'', JString ''toString'')])
     = Some (Inherited ''toString'')
   \<and> isRetryablePostgresError (JObject [(''code'', JString ''toString'')])
   \<and> \<not> retryable_class ''toString''"
  by (simp add: isRetryablePostgresError_def js_get_def js_in_def js_index_def
      RETRYABLE_PG_ERROR_CODES_def object_prototype_keys_def retryable_class_def)

text \<open>
  C10. The claim: an error whose retryable code sits only in a nested \<open>cause\<close> gets
  \<open>null\<close>. The function does read the top-level \<open>code\<close> alone (\<open>top_level_code_only\<close>),
  but for \<open>{ code: 'toString', cause: { code: '40001' } }\<close>, whose only retryable code is
  the nested one, the inherited name at the top makes the result differ from \<open>null\<close>.
\<close>

theorem nested_cause_inherited_code:
  "cause_has_retryable_code 1
     (JObject [(''code'', JString ''toString''),
               (''cause'', JObject [(''code'', JString ''40001'')])])
   \<and> \<not> has_retryable_code
     (JObject [(''code'', JString ''toString''),
               (''cause'', JObject [(''code'', JString ''40001'')])])
   \<and> getRetryableErrorDescription
     (JObject [(''code'', JString ''toString''),
               (''cause'', JObject [(''code'', JString ''40001'')])])
      = Some (Inherited ''toString'')"
  by (simp add: js_get_def js_in_def js_index_def
      RETRYABLE_PG_ERROR_CODES_def object_prototype_keys_def retryable_class_def)

section \<open>Properties of the free-tier check\<close>

text \<open>
  C8. Whatever parser \<open>isFreeAgent\<close> is given, it answers true exactly when the parsed
  agent id is one of the five free-tier agents, and false when no agent id was parsed.
\<close>

theorem isFreeAgent_iff:
  "(isFreeAgent parseAgentId fullAgentId \<longleftrightarrow>
      (\<exists>a. agentId (parseAgentId fullAgentId) = Some a \<and> a \<in> FREE_TIER_AGENTS))
   \<and> (agentId (parseAgentId fullAgentId) = None \<longrightarrow> \<not> isFreeAgent parseAgentId fullAgentId)
   \<and> card FREE_TIER_AGENTS = 5"
  by (auto simp: isFreeAgent_def FREE_TIER_AGENTS_def split: option.splits)

theorem isFreeAgent_iff_witness:
  "agentId (parseAgentId_spec ''@1.0.0'') = None
   \<and> \<not> isFreeAgent parseAgentId_spec ''@1.0.0''
   \<and> isFreeAgent parseAgentId_spec ''file-picker''
   \<and> isFreeAgent parseAgentId_spec ''file-picker@1.0.0''
   \<and> isFreeAgent parseAgentId_spec ''codebuff/file-picker@0.0.2''
   \<and> \<not> isFreeAgent parseAgentId_spec ''codebuff/base@0.0.2''"
proof -
  have none: "agentId (parseAgentId_spec ''@1.0.0'') = None"
    by (simp add: parseAgentId_spec_def split_on_def nonempty_def)
  have ids: "agentId (parseAgentId_spec ''file-picker'') = Some ''file-picker''"
    "agentId (parseAgentId_spec ''file-picker@1.0.0'') = Some ''file-picker''"
    "agentId (parseAgentId_spec ''codebuff/file-picker@0.0.2'') = Some ''file-picker''"
    "agentId (parseAgentId_spec ''codebuff/base@0.0.2'') = Some ''base''"
    by (simp_all add: parseAgentId_spec_def split_on_def nonempty_def)
  show ?thesis
    using none ids
      isFreeAgent_iff [of parseAgentId_spec "''@1.0.0''"]
      isFreeAgent_iff [of parseAgentId_spec "''file-picker''"]
      isFreeAgent_iff [of parseAgentId_spec "''file-picker@1.0.0''"]
      isFreeAgent_iff [of parseAgentId_spec "''codebuff/file-picker@0.0.2''"]
      isFreeAgent_iff [of parseAgentId_spec "''codebuff/base@0.0.2''"]
    by (simp add: FREE_TIER_AGENTS_def)
qed

section \<open>Properties of the retried transaction\<close>

lemma withRetry_from_tries:
  assumes "att < maxRetries"
  shows "\<exists>new. tries (withRetry_from operation retryIf onRetry d maxRetries att lastError run)
              = tries run @ new
          \<and> 1 \<le> length new \<and> length new \<le> maxRetries - att
          \<and> outcome (withRetry_from operation retryIf onRetry d maxRetries att lastError run)
              = last new
          \<and> hd new = fst (operation (world run))
          \<and> (\<forall>x \<in> set (butlast new). \<exists>e. x = Inl e \<and> retryIf e)
          \<and> (length new < maxRetries - att \<longrightarrow>
               (\<forall>e. last new = Inl e \<longrightarrow> \<not> retryIf e))"
  using assms
proof (induction operation retryIf onRetry d maxRetries att lastError run
       rule: withRetry_from.induct)
  case (1 operation retryIf onRetry d maxRetries att lastError run)
  obtain r w' where op: "operation (world run) = (r, w')" by (cases "operation (world run)")
  show ?case
  proof (cases r)
    case (Inr v)
    with op 1(2) show ?thesis
      by (subst withRetry_from.simps) (auto intro!: exI [of _ "[Inr v]"])
  next
    case (Inl error)
    show ?thesis
    proof (cases "\<not> retryIf error \<or> att = maxRetries - 1")
      case True
      with op Inl 1(2) show ?thesis
        by (subst withRetry_from.simps, subst (2) withRetry_from.simps)
           (auto intro!: exI [of _ "[Inl error]"])
    next
      case False
      then have lt: "att + 1 < maxRetries" using 1(2) by auto
      let ?run' = "run\<lparr>tries := tries run @ [Inl error],
                         notices := notices run @ [onRetry error (att + 1)],
                         sleeps := sleeps run @ [d * 2 ^ att],
                         world := w'\<rparr>"
      let ?R = "withRetry_from operation retryIf onRetry d maxRetries (att + 1) error ?run'"
      have eq: "withRetry_from operation retryIf onRetry d maxRetries att lastError run = ?R"
        using op Inl False 1(2) by (subst withRetry_from.simps) simp
      from "1.IH" [OF 1(2) op [symmetric] Inl False lt]
      obtain new where new: "tries ?R = tries ?run' @ new" "1 \<le> length new"
        "length new \<le> maxRetries - (att + 1)" "outcome ?R = last new"
        "\<forall>x \<in> set (butlast new). \<exists>e. x = Inl e \<and> retryIf e"
        "length new < maxRetries - (att + 1) \<longrightarrow> (\<forall>e. last new = Inl e \<longrightarrow> \<not> retryIf e)"
        by auto
      from new(2) have ne: "new \<noteq> []" by auto
      have "tries ?R = tries run @ (Inl error # new)" using new(1) by simp
      moreover have "1 \<le> length (Inl error # new)" by simp
      moreover have "length (Inl error # new) \<le> maxRetries - att" using new(3) lt by simp
      moreover have "outcome ?R = last (Inl error # new)" using new(4) ne by simp
      moreover have "hd (Inl error # new) = fst (operation (world run))" using op Inl by simp
      moreover have "\<forall>x \<in> set (butlast (Inl error # new)). \<exists>e. x = Inl e \<and> retryIf e"
        using new(5) ne False by auto
      moreover have "length (Inl error # new) < maxRetries - att \<longrightarrow>
               (\<forall>e. last (Inl error # new) = Inl e \<longrightarrow> \<not> retryIf e)"
        using new(6) ne by auto
      ultimately show ?thesis unfolding eq by blast
    qed
  qed
qed

lemma withRetry_from_traced:
  assumes "att < maxRetries"
  shows "snd (world (withRetry_from (traced db cb cfg) retryIf onRetry d maxRetries att lastError run))
          = snd (world run) @
            replicate (length (tries (withRetry_from (traced db cb cfg) retryIf onRetry d maxRetries att lastError run))
                       - length (tries run)) cfg"
  using assms
proof (induction "traced db cb cfg" retryIf onRetry d maxRetries att lastError run
       rule: withRetry_from.induct)
  case (1 retryIf onRetry d maxRetries att lastError run)
  obtain w calls where wr: "world run = (w, calls)" by (cases "world run")
  obtain r w' where op: "db cb cfg w = (r, w')" by (cases "db cb cfg w")
  have top: "traced db cb cfg (world run) = (r, (w', calls @ [cfg]))"
    by (simp add: traced_def wr op)
  show ?case
  proof (cases r)
    case (Inr v)
    with top 1(2) wr show ?thesis
      by (subst withRetry_from.simps, subst (2) withRetry_from.simps) simp
  next
    case (Inl error)
    show ?thesis
    proof (cases "\<not> retryIf error \<or> att = maxRetries - 1")
      case True
      with top Inl 1(2) wr show ?thesis
        by (subst withRetry_from.simps, subst (2) withRetry_from.simps) auto
    next
      case False
      then have lt: "att + 1 < maxRetries" using 1(2) by auto
      let ?run' = "run\<lparr>tries := tries run @ [Inl error],
                         notices := notices run @ [onRetry error (att + 1)],
                         sleeps := sleeps run @ [d * 2 ^ att],
                         world := (w', calls @ [cfg])\<rparr>"
      let ?R = "withRetry_from (traced db cb cfg) retryIf onRetry d maxRetries (att + 1) error ?run'"
      have eq: "withRetry_from (traced db cb cfg) retryIf onRetry d maxRetries att lastError run = ?R"
        using top Inl False 1(2) by (subst withRetry_from.simps) simp
      obtain new where new: "tries ?R = tries ?run' @ new" "1 \<le> length new"
        using withRetry_from_tries [OF lt, of "traced db cb cfg" retryIf onRetry d error ?run'] by blast
      from "1.hyps" [OF 1(2) top [symmetric] Inl False lt]
      have "snd (world ?R) = snd (world ?run') @ replicate (length (tries ?R) - length (tries ?run')) cfg" .
      then show ?thesis unfolding eq using new wr
        by (simp add: replicate_app_Cons_same)
    qed
  qed
qed


text \<open>
  C4. A run of \<open>withSerializableTransaction\<close> calls the database between one and five
  times, each time asking for serializable isolation. Every call but the last failed with a
  retryable error; the run returns what the last call returned; it stops short of five
  calls only on a success or on an error that is not retryable; and an error that is not
  retryable on the first call is propagated after that one call.
\<close>

theorem withSerializableTransaction_retries:
  fixes db :: "('cb, 'w, 'a) database"
  assumes R: "R = traced_transaction delay db callback w"
  shows "1 \<le> length (tries R) \<and> length (tries R) \<le> 5
     \<and> snd (world R) = replicate (length (tries R)) serializable
     \<and> outcome R = last (tries R)
     \<and> hd (tries R) = fst (db callback serializable w)
     \<and> (\<forall>x \<in> set (butlast (tries R)). \<exists>e. x = Inl e \<and> isRetryablePostgresError e)
     \<and> (length (tries R) < 5 \<longrightarrow> (\<forall>e. outcome R = Inl e \<longrightarrow> \<not> isRetryablePostgresError e))
     \<and> (\<forall>e. fst (db callback serializable w) = Inl e \<and> \<not> isRetryablePostgresError e \<longrightarrow>
           length (tries R) = 1 \<and> outcome R = Inl e)"
proof -
  let ?retryIf = "\<lambda>error. getRetryableErrorDescription error \<noteq> None"
  let ?run = "\<lparr>outcome = Inl JNull, tries = [], notices = [], sleeps = [],
               world = (w, [])\<rparr> :: ('w \<times> transaction_config list, 'a, retry_warning) retry_run"
  define cfg where "cfg = serializable"
  have R: "R = withRetry_from (traced db callback cfg) ?retryIf (onRetry_warning delay) delay 5 0
                 JNull ?run"
    by (simp add: R traced_transaction_def cfg_def serializable_def withSerializableTransaction_def
        withRetry_def)
  have lt: "(0::nat) < 5" by simp
  obtain new where new: "tries R = new" "1 \<le> length new" "length new \<le> 5"
      "outcome R = last new" "hd new = fst (traced db callback cfg (w, []))"
      "\<forall>x \<in> set (butlast new). \<exists>e. x = Inl e \<and> ?retryIf e"
      "length new < 5 \<longrightarrow> (\<forall>e. last new = Inl e \<longrightarrow> \<not> ?retryIf e)"
    using withRetry_from_tries [OF lt, of "traced db callback cfg" ?retryIf
        "onRetry_warning delay" delay JNull ?run]
    unfolding R by auto
  have calls: "snd (world R) = replicate (length (tries R)) cfg"
    using withRetry_from_traced [OF lt, of db callback cfg ?retryIf "onRetry_warning delay" delay
        JNull ?run]
    unfolding R by simp
  have hd: "hd (tries R) = fst (db callback cfg w)"
    using new(1,5) by (simp add: traced_def split: prod.splits)
  have first: "length (tries R) = 1 \<and> outcome R = Inl e"
    if e: "fst (db callback cfg w) = Inl e" "\<not> isRetryablePostgresError e" for e
  proof -
    have "length new = 1"
    proof (rule ccontr)
      assume "length new \<noteq> 1"
      with new(2) have "2 \<le> length new" by simp
      then have "hd new \<in> set (butlast new)"
        by (cases new, simp, rename_tac a list, case_tac list, auto)
      with new(6) obtain e' where "hd new = Inl e'" "?retryIf e'" by blast
      with hd new(1) e show False by (simp add: isRetryablePostgresError_def)
    qed
    then have "last new = hd new" by (cases new) auto
    with \<open>length new = 1\<close> new(1,4) hd e show ?thesis by simp
  qed
  show ?thesis
    using new(1-4,6,7) calls hd first
    unfolding cfg_def by (simp add: isRetryablePostgresError_def)
qed


theorem withSerializableTransaction_retries_witness:
  "fst (scripted [Inl unique_violation, Inr ''unreached''] () serializable 0) = Inl unique_violation
   \<and> \<not> isRetryablePostgresError unique_violation
   \<and> length (tries (traced_transaction 1000
         (scripted [Inl unique_violation, Inr ''unreached'']) () 0)) = 1
   \<and> outcome (traced_transaction 1000
         (scripted [Inl unique_violation, Inr ''unreached'']) () 0) = Inl unique_violation
   \<and> length (tries (traced_transaction 1000
         (scripted (replicate 7 (Inl serialization_failure :: jsvalue + string))) () 0)) = 5
   \<and> outcome (traced_transaction 1000
         (scripted (replicate 7 (Inl serialization_failure :: jsvalue + string))) () 0)
       = Inl serialization_failure
   \<and> snd (world (traced_transaction 1000
         (scripted (replicate 7 (Inl serialization_failure :: jsvalue + string))) () 0))
       = replicate 5 serializable"
proof -
  have a: "fst (scripted [Inl unique_violation, Inr ''unreached''] () serializable 0)
             = Inl unique_violation"
    by (simp add: scripted_def)
  have b: "\<not> isRetryablePostgresError unique_violation"
    by (simp add: isRetryablePostgresError_def unique_violation_def js_get_def js_in_def
        RETRYABLE_PG_ERROR_CODES_def retryableClasses_def object_prototype_keys_def)
  have c: "tries (traced_transaction 1000
         (scripted (replicate 7 (Inl serialization_failure :: jsvalue + string))) () 0)
       = replicate 5 (Inl serialization_failure)"
    by code_simp
  note one = withSerializableTransaction_retries [OF refl, of 1000
        "scripted [Inl unique_violation, Inr ''unreached'']" "()" 0]
  note five = withSerializableTransaction_retries [OF refl, of 1000
        "scripted (replicate 7 (Inl serialization_failure :: jsvalue + string))" "()" 0]
  have d: "length (tries (traced_transaction 1000
         (scripted [Inl unique_violation, Inr ''unreached'']) () 0)) = 1
   \<and> outcome (traced_transaction 1000
         (scripted [Inl unique_violation, Inr ''unreached'']) () 0) = Inl unique_violation"
    using one a b by blast
  have e: "outcome (traced_transaction 1000
         (scripted (replicate 7 (Inl serialization_failure :: jsvalue + string))) () 0)
       = Inl serialization_failure"
    using five c by (simp add: numeral_eq_Suc)
  have f: "snd (world (traced_transaction 1000
         (scripted (replicate 7 (Inl serialization_failure :: jsvalue + string))) () 0))
       = replicate 5 serializable"
    using five c by simp
  show ?thesis
    using a b c d e f by simp
qed

section \<open>Properties of the agent step\<close>

subsection \<open>The spine and the records are kept by every event\<close>

lemma chain_append:
  "chain p b (ts @ [t]) \<longleftrightarrow>
     chain p b ts
     \<and> waitsOn t = (if ts = [] then p else ToolPromise (task_id (last ts)))
     \<and> (settled t \<longrightarrow> (if ts = [] then b else settled (last ts)) \<and> work t \<noteq> None)"
  by (induction ts arbitrary: p b) auto

lemma chain_settled_prefix:
  "chain p b ts \<Longrightarrow> t \<in> set ts \<Longrightarrow> settled (last ts) \<Longrightarrow> settled t"
proof (induction ts arbitrary: p b t)
  case Nil
  then show ?case by simp
next
  case (Cons u us)
  show ?case
  proof (cases "us = []")
    case True
    with Cons.prems show ?thesis by simp
  next
    case False
    with Cons.prems have l: "settled (last us)" by simp
    from Cons.prems have c: "chain (ToolPromise (task_id u)) (settled u) us" by simp
    have "settled (hd us)" using Cons.IH [OF c _ l, of "hd us"] False by simp
    with c False have "settled u" by (cases us) auto
    with Cons.IH [OF c _ l] Cons.prems(2) show ?thesis by auto
  qed
qed

lemma resolved_tool_promise:
  "distinct (map task_id (tasks s)) \<Longrightarrow> t \<in> set (tasks s) \<Longrightarrow>
   resolved s (ToolPromise (task_id t)) = settled t"
  by (auto simp: resolved_def task_id_def distinct_map inj_on_def)

lemma sorted_ids_distinct:
  "sorted_wrt (<) (map task_id ts) \<Longrightarrow> distinct (map task_id ts)"
  by (simp add: strict_sorted_iff)


lemma chain_mono: "chain p b ts \<Longrightarrow> (b \<Longrightarrow> b') \<Longrightarrow> chain p b' ts"
  by (cases ts) auto

lemma chain_unsettled: "chain p False ts \<Longrightarrow> t \<in> set ts \<Longrightarrow> \<not> settled t"
  by (induction ts arbitrary: p) auto

lemma chain_waitsOn:
  "chain p b ts \<Longrightarrow> t \<in> set ts \<Longrightarrow>
   waitsOn t = p \<or> (\<exists>u \<in> set ts. waitsOn t = ToolPromise (task_id u))"
  by (induction ts arbitrary: p b) auto

lemma mark_other:
  "\<forall>u \<in> set us. task_id u \<noteq> k \<Longrightarrow> map (mark_settled k) us = us"
  by (induction us) (auto simp: mark_settled_def task_id_def)

lemma mark_fields [simp]:
  "call (mark_settled k u) = call u" "waitsOn (mark_settled k u) = waitsOn u"
  "work (mark_settled k u) = work u" "task_id (mark_settled k u) = task_id u"
  by (simp_all add: mark_settled_def task_id_def)

lemma mark_self [simp]: "mark_settled (task_id u) u = u\<lparr>settled := True\<rparr>"
  by (simp add: mark_settled_def task_id_def)

lemma task_id_settled [simp]: "task_id (u\<lparr>settled := v\<rparr>) = task_id u"
  by (simp add: task_id_def)

lemma task_id_work [simp]: "task_id (u\<lparr>work := v\<rparr>) = task_id u"
  by (simp add: task_id_def)

lemma task_id_mark_comp [simp]: "task_id \<circ> mark_settled k = task_id"
  by (rule ext) simp

lemma chain_mark:
  assumes "chain p b ts" "distinct (map task_id ts)" "t \<in> set ts" "work t \<noteq> None"
    and "\<forall>u \<in> set ts. waitsOn t = ToolPromise (task_id u) \<longrightarrow> settled u"
    and "waitsOn t = p \<longrightarrow> b"
  shows "chain p b (map (mark_settled (task_id t)) ts)"
  using assms
proof (induction ts arbitrary: p b)
  case Nil
  then show ?case by simp
next
  case (Cons u us)
  show ?case
  proof (cases "task_id u = task_id t")
    case True
    with Cons.prems(2,3) have tu: "t = u" by (auto simp: image_iff)
    with Cons.prems(2) have "\<forall>v \<in> set us. task_id v \<noteq> task_id t"
      by (auto simp: image_iff)
    then have same: "map (mark_settled (task_id t)) us = us" by (rule mark_other)
    have "chain (ToolPromise (task_id u)) True us"
      using Cons.prems(1) by (auto intro: chain_mono)
    with Cons.prems(1,4,6) tu same show ?thesis
      by simp
  next
    case False
    with Cons.prems(3) have tin: "t \<in> set us" by auto
    have mu: "mark_settled (task_id t) u = u"
      using False by (simp add: mark_settled_def task_id_def)
    have "chain (ToolPromise (task_id u)) (settled u) (map (mark_settled (task_id t)) us)"
      using Cons.prems by (intro Cons.IH) (auto simp: tin)
    with Cons.prems(1) mu show ?thesis by simp
  qed
qed

lemma filter_mark:
  assumes "chain p b ts" "distinct (map task_id ts)" "t \<in> set ts" "\<not> settled t"
  shows "filter settled (map (mark_settled (task_id t)) ts)
           = filter settled ts @ [t\<lparr>settled := True\<rparr>]"
  using assms
proof (induction ts arbitrary: p b)
  case Nil
  then show ?case by simp
next
  case (Cons u us)
  show ?case
  proof (cases "task_id u = task_id t")
    case True
    with Cons.prems(2,3) have tu: "t = u" by (auto simp: image_iff)
    with Cons.prems(2) have "\<forall>v \<in> set us. task_id v \<noteq> task_id t"
      by (auto simp: image_iff)
    then have same: "map (mark_settled (task_id t)) us = us" by (rule mark_other)
    have "chain (ToolPromise (task_id u)) False us"
      using Cons.prems(1,4) tu by simp
    then have "filter settled us = []"
      by (auto simp: filter_empty_conv dest: chain_unsettled)
    with Cons.prems(4) tu same show ?thesis
      by simp
  next
    case False
    with Cons.prems(3) have tin: "t \<in> set us" by auto
    have mu: "mark_settled (task_id t) u = u"
      using False by (simp add: mark_settled_def task_id_def)
    have "filter settled (map (mark_settled (task_id t)) us)
           = filter settled us @ [t\<lparr>settled := True\<rparr>]"
      using Cons.prems by (intro Cons.IH [of "ToolPromise (task_id u)" "settled u"]) (auto simp: tin)
    with mu show ?thesis by simp
  qed
qed


lemma record_result_fields:
  assumes "work t \<noteq> None"
  shows "tasks (record_result P t s) = map (mark_settled (task_id t)) (tasks s)"
    and "toolCalls (record_result P t s) = toolCalls s @ [call t]"
    and "toolCallsToAddToMessageHistory (record_result P t s)
           = toolCallsToAddToMessageHistory s @ [call t]"
    and "toolResults (record_result P t s) = toolResults s @ [result_of t]"
    and "toolResultsToAddToMessageHistory (record_result P t s)
           = toolResultsToAddToMessageHistory s @ [result_of t]"
    and "responseChunks (record_result P t s) = responseChunks s @ events_of t"
    and "previousToolCallFinished (record_result P t s) = previousToolCallFinished s"
    and "idsIssued (record_result P t s) = idsIssued s"
    and "phase (record_result P t s) = phase s"
    and "streamDoneResolved (record_result P t s) = streamDoneResolved s"
    and "aborted (record_result P t s) = aborted s"
    and "abortedAtExit (record_result P t s) = abortedAtExit s"
    and "messageHistory (record_result P t s) = messageHistory s"
    and "messageHistoryBeforeStream (record_result P t s) = messageHistoryBeforeStream s"
    and "assistantMessages (record_result P t s) = assistantMessages s"
    and "errorMessages (record_result P t s) = errorMessages s"
    and "hadToolCallError (record_result P t s) = hadToolCallError s"
    and "parserAwaits (record_result P t s) = parserAwaits s"
    and "fullResponseChunks (record_result P t s) = fullResponseChunks s"
    and "messageId (record_result P t s) = messageId s"
  using assms
  by (auto simp: record_result_def responseHandler_def onResponseChunk_def task_id_def
      result_of_def events_of_def output_of_def Let_def)

lemma root_of_mark:
  "root_of (s\<lparr>tasks := map (mark_settled k) (tasks s)\<rparr>) = root_of s"
  by (cases "tasks s") (simp_all add: root_of_def)

lemma root_of_cong:
  "tasks s' = map (mark_settled k) (tasks s) \<Longrightarrow>
   previousToolCallFinished s' = previousToolCallFinished s \<Longrightarrow> root_of s' = root_of s"
  by (cases "tasks s") (simp_all add: root_of_def)

lemma ready_resolved_pred:
  assumes d: "distinct (map task_id (tasks s))" and r: "resolved s (waitsOn t)"
    and u: "u \<in> set (tasks s)" and w: "waitsOn t = ToolPromise (task_id u)"
  shows "settled u"
  using r resolved_tool_promise [OF d u] w by simp

lemma record_result_spine:
  assumes inv: "spine_ok s" and t: "t \<in> set (tasks s)" and r: "ready s t"
  shows "spine_ok (record_result P t s)"
proof -
  let ?s = "record_result P t s"
  from r have w: "work t \<noteq> None" and res: "resolved s (waitsOn t)"
    by (simp_all add: ready_def)
  note f = record_result_fields [OF w, of P s]
  from inv have d: "distinct (map task_id (tasks s))"
    by (simp add: spine_ok_def sorted_ids_distinct)
  have root: "root_of ?s = root_of s"
    by (rule root_of_cong [of _ "task_id t"]) (simp_all add: f)
  from inv have c: "chain (root_of s) True (tasks s)" by (simp add: spine_ok_def)
  have c': "chain (root_of s) True (map (mark_settled (task_id t)) (tasks s))"
    using c d t w ready_resolved_pred [OF d res]
    by (intro chain_mark) auto
  have last: "tasks s \<noteq> [] \<Longrightarrow>
      task_id (last (map (mark_settled (task_id t)) (tasks s))) = task_id (last (tasks s))"
    by (simp add: last_map)
  show ?thesis
    using inv c' last
    by (simp add: spine_ok_def root f)
qed

lemma result_of_settled [simp]: "result_of (t\<lparr>settled := v\<rparr>) = result_of t"
  by (simp add: result_of_def output_of_def)

lemma events_of_settled [simp]: "events_of (t\<lparr>settled := v\<rparr>) = events_of t"
  by (simp add: events_of_def output_of_def)

lemma tool_events_of [simp]: "filter is_tool_event (events_of t) = events_of t"
  by (simp add: events_of_def)

lemma record_result_records:
  assumes inv: "spine_ok s" "records_ok s" and t: "t \<in> set (tasks s)" and r: "ready s t"
  shows "records_ok (record_result P t s)"
proof -
  from r have w: "work t \<noteq> None" and ns: "\<not> settled t"
    by (simp_all add: ready_def)
  note f = record_result_fields [OF w, of P s]
  from inv have d: "distinct (map task_id (tasks s))"
    by (simp add: spine_ok_def sorted_ids_distinct)
  from inv have c: "chain (root_of s) True (tasks s)" by (simp add: spine_ok_def)
  have fm: "filter settled (map (mark_settled (task_id t)) (tasks s))
           = filter settled (tasks s) @ [t\<lparr>settled := True\<rparr>]"
    using c d t ns by (rule filter_mark)
  show ?thesis
    using inv(2) unfolding records_ok_def f fm by simp
qed


lemma no_ready_behind_gate:
  assumes sp: "spine_ok s" and g: "gate_ok s" and t: "t \<in> set (tasks s)" and r: "ready s t"
  shows "\<not> (root_of s = StreamDonePromise \<and> \<not> streamDoneResolved s)"
proof
  assume a: "root_of s = StreamDonePromise \<and> \<not> streamDoneResolved s"
  with g have un: "\<forall>u \<in> set (tasks s). \<not> settled u" by (simp add: gate_ok_def)
  from sp have d: "distinct (map task_id (tasks s))"
    by (simp add: spine_ok_def sorted_ids_distinct)
  from sp have c: "chain (root_of s) True (tasks s)" by (simp add: spine_ok_def)
  from r have res: "resolved s (waitsOn t)" by (simp add: ready_def)
  from chain_waitsOn [OF c t] show False
  proof
    assume "waitsOn t = root_of s"
    with a res show False by (simp add: resolved_def)
  next
    assume "\<exists>u \<in> set (tasks s). waitsOn t = ToolPromise (task_id u)"
    then obtain u where u: "u \<in> set (tasks s)" "waitsOn t = ToolPromise (task_id u)" by blast
    from ready_resolved_pred [OF d res u] un u(1) show False by blast
  qed
qed

lemma record_result_gate:
  assumes sp: "spine_ok s" and g: "gate_ok s" and t: "t \<in> set (tasks s)" and r: "ready s t"
  shows "gate_ok (record_result P t s)"
proof -
  from r have w: "work t \<noteq> None" by (simp add: ready_def)
  note f = record_result_fields [OF w, of P s]
  have root: "root_of (record_result P t s) = root_of s"
    by (rule root_of_cong [of _ "task_id t"]) (simp_all add: f)
  from no_ready_behind_gate [OF sp g t r] g show ?thesis
    by (auto simp: gate_ok_def root f)
qed

lemma record_result_history:
  assumes h: "history_ok history s" and r: "ready s t" and p: "phase s \<noteq> Committed"
  shows "history_ok history (record_result P t s)"
proof -
  from r have w: "work t \<noteq> None" by (simp add: ready_def)
  note f = record_result_fields [OF w, of P s]
  from h p show ?thesis by (simp add: history_ok_def f)
qed

lemma record_result_invariant:
  assumes "invariant history s" "t \<in> set (tasks s)" "ready s t" "phase s \<noteq> Committed"
  shows "invariant history (record_result P t s)"
  using assms
  by (simp add: invariant_def record_result_spine record_result_records record_result_gate
      record_result_history)

lemma settle_step_cases:
  "settle_step P s = s \<or> (\<exists>t \<in> set (tasks s). ready s t \<and> settle_step P s = record_result P t s)"
  by (auto simp: settle_step_def find_Some_iff split: option.splits)

lemma settle_step_phase [simp]: "phase (settle_step P s) = phase s"
  using settle_step_cases [of P s]
  by (auto simp: ready_def record_result_fields)

lemma settle_step_invariant:
  "invariant history s \<Longrightarrow> phase s \<noteq> Committed \<Longrightarrow> invariant history (settle_step P s)"
  using settle_step_cases [of P s] by (auto intro: record_result_invariant)

lemma settle_steps_invariant:
  "invariant history s \<Longrightarrow> phase s \<noteq> Committed \<Longrightarrow>
   invariant history ((settle_step P ^^ n) s) \<and> phase ((settle_step P ^^ n) s) = phase s"
  by (induction n) (auto intro: settle_step_invariant)

lemma settle_invariant:
  "invariant history s \<Longrightarrow> phase s \<noteq> Committed \<Longrightarrow> invariant history (settle P s)"
  by (simp add: settle_def settle_steps_invariant)

lemma settle_phase [simp]: "phase (settle P s) = phase s"
proof -
  have "phase ((settle_step P ^^ n) s) = phase s" for n by (induction n) auto
  then show ?thesis by (simp add: settle_def)
qed

lemma all_settled:
  assumes sp: "spine_ok s" and r: "resolved s (previousToolCallFinished s)"
    and t: "t \<in> set (tasks s)"
  shows "settled t"
proof -
  from t have ne: "tasks s \<noteq> []" by auto
  from sp have d: "distinct (map task_id (tasks s))"
    by (simp add: spine_ok_def sorted_ids_distinct)
  from sp have c: "chain (root_of s) True (tasks s)" by (simp add: spine_ok_def)
  from sp ne have "previousToolCallFinished s = ToolPromise (task_id (last (tasks s)))"
    by (simp add: spine_ok_def)
  with r resolved_tool_promise [OF d, of "last (tasks s)"] ne
  have "settled (last (tasks s))" by simp
  with c t show ?thesis by (rule chain_settled_prefix)
qed

lemma root_of_frame:
  "tasks s' = tasks s \<Longrightarrow> previousToolCallFinished s' = previousToolCallFinished s \<Longrightarrow>
   root_of s' = root_of s"
  by (cases "tasks s") (simp_all add: root_of_def)

lemma finalization_invariant:
  assumes inv: "invariant history s" and p: "phase s = Draining"
    and r: "resolved s (previousToolCallFinished s)"
  shows "invariant history (finalization s)"
proof -
  have root: "root_of (finalization s) = root_of s"
    by (rule root_of_frame) (simp_all add: finalization_def)
  from inv have sp: "spine_ok s" by (simp add: invariant_def)
  have "\<forall>t \<in> set (tasks s). settled t" using all_settled [OF sp r] by blast
  with inv p show ?thesis
    by (simp add: invariant_def spine_ok_def records_ok_def gate_ok_def history_ok_def root)
       (simp add: finalization_def)
qed

lemma unblock_invariant:
  assumes inv: "invariant history s"
  shows "invariant history (s\<lparr>parserAwaits := None\<rparr>)"
proof -
  have root: "root_of (s\<lparr>parserAwaits := None\<rparr>) = root_of s"
    by (rule root_of_frame) simp_all
  from inv show ?thesis
    by (simp add: invariant_def spine_ok_def records_ok_def gate_ok_def history_ok_def root)
qed

lemma wake_invariant:
  assumes inv: "invariant history s"
  shows "invariant history (wake P s)"
proof (cases "phase s = Committed")
  case True
  with inv show ?thesis by (simp add: wake_def)
next
  case p: False
  let ?s1 = "settle P s"
  let ?s2 = "case parserAwaits ?s1 of
               Some q \<Rightarrow> if resolved ?s1 q then ?s1\<lparr>parserAwaits := None\<rparr> else ?s1
             | None \<Rightarrow> ?s1"
  have i1: "invariant history ?s1" using inv p by (rule settle_invariant)
  have i2: "invariant history ?s2"
    using i1 by (auto split: option.splits intro: unblock_invariant)
  show ?thesis
    unfolding wake_def Let_def
    using p i2 finalization_invariant [OF i2] by simp
qed

lemma previousPromise_idsIssued [simp]:
  "previousPromise x (s\<lparr>idsIssued := n\<rparr>) = previousPromise x s"
  by (simp add: previousPromise_def)

lemma onTagEnd_aborted: "aborted s \<Longrightarrow> onTagEnd P toolName x inp s = (None, s)"
  by (simp add: onTagEnd_def)

lemma onTagEnd_refused:
  assumes "\<not> aborted s" "refusal P toolName inp = Some msg"
  shows "onTagEnd P toolName x inp s =
     (if x then Some (previousPromise x s) else None,
      s\<lparr>idsIssued := Suc (idsIssued s),
        hadToolCallError := True,
        errorMessages := errorMessages s
          @ [userMessage (withSystemTags P (tool_call_error_text msg))],
        responseChunks := responseChunks s @ [ErrorEvent msg],
        previousToolCallFinished := previousPromise x s\<rparr>)"
  using assms
  by (auto simp: onTagEnd_def refusal_def executeToolCall_def responseHandler_def
      onResponseChunk_def Let_def split: prod.splits)

lemma onTagEnd_accepted:
  assumes "\<not> aborted s" "refusal P toolName inp = None"
    and "executor_arguments P toolName inp = (custom, name, inp')"
  shows "onTagEnd P toolName x inp s =
     (if x then Some (ToolPromise (idsIssued s)) else None,
      s\<lparr>idsIssued := Suc (idsIssued s),
        tasks := tasks s
          @ [\<lparr>call = ToolCall (idsIssued s) name inp', waitsOn = previousPromise x s,
               work = None, settled = False\<rparr>],
        previousToolCallFinished := ToolPromise (idsIssued s)\<rparr>)"
  using assms
  by (auto simp: onTagEnd_def refusal_def executeToolCall_def Let_def split: prod.splits)


lemma previousPromise_root:
  assumes "spine_ok s"
  shows "tasks s = [] \<Longrightarrow>
           previousPromise x s = StreamDonePromise \<or> previousPromise x s = ResolvedPromise"
    and "tasks s \<noteq> [] \<Longrightarrow> previousPromise x s = ToolPromise (task_id (last (tasks s)))"
  using assms by (auto simp: spine_ok_def root_of_def previousPromise_def)

lemma spine_refused:
  assumes sp: "spine_ok s"
  shows "spine_ok (s\<lparr>idsIssued := Suc (idsIssued s), hadToolCallError := True,
                    errorMessages := e, responseChunks := r,
                    previousToolCallFinished := previousPromise x s\<rparr>)"
proof (cases "tasks s = []")
  case True
  with previousPromise_root(1) [OF sp, of x] show ?thesis
    by (auto simp: spine_ok_def root_of_def)
next
  case False
  with previousPromise_root(2) [OF sp, of x] sp show ?thesis
    by (cases "tasks s") (auto simp: spine_ok_def root_of_def less_Suc_eq)
qed

lemma root_of_snoc:
  "root_of (s\<lparr>idsIssued := n, tasks := tasks s @ [t], previousToolCallFinished := q\<rparr>)
     = (if tasks s = [] then waitsOn t else root_of s)"
  by (cases "tasks s") (simp_all add: root_of_def)

lemma spine_accepted:
  assumes sp: "spine_ok s"
  shows "spine_ok (s\<lparr>idsIssued := Suc (idsIssued s),
                    tasks := tasks s
                      @ [\<lparr>call = ToolCall (idsIssued s) name inp,
                           waitsOn = previousPromise x s, work = None, settled = False\<rparr>],
                    previousToolCallFinished := ToolPromise (idsIssued s)\<rparr>)"
    (is "spine_ok ?s")
proof -
  let ?new = "\<lparr>call = ToolCall (idsIssued s) name inp,
                waitsOn = previousPromise x s, work = None, settled = False\<rparr>"
  have root: "root_of ?s = (if tasks s = [] then previousPromise x s else root_of s)"
    by (simp add: root_of_snoc)
  have r: "root_of ?s = StreamDonePromise \<or> root_of ?s = ResolvedPromise"
    using sp previousPromise_root(1) [OF sp, of x] unfolding root
    by (auto simp: spine_ok_def)
  have c: "chain (root_of ?s) True (tasks s @ [?new])"
    using sp previousPromise_root(2) [OF sp, of x] unfolding root chain_append
    by (auto simp: spine_ok_def)
  have i: "sorted_wrt (<) (map task_id (tasks s @ [?new]))"
    using sp by (auto simp: spine_ok_def sorted_wrt_append task_id_def)
  have b: "\<forall>t \<in> set (tasks s @ [?new]). task_id t < Suc (idsIssued s)"
    using sp by (auto simp: spine_ok_def task_id_def less_Suc_eq)
  have l: "task_id (last (tasks s @ [?new])) = idsIssued s"
    by (simp add: task_id_def)
  show ?thesis
    unfolding spine_ok_def using r c i b l by simp
qed

lemma records_frame:
  assumes "records_ok s" "filter settled (tasks s') = filter settled (tasks s)"
    "toolCalls s' = toolCalls s"
    "toolCallsToAddToMessageHistory s' = toolCallsToAddToMessageHistory s"
    "toolResults s' = toolResults s"
    "toolResultsToAddToMessageHistory s' = toolResultsToAddToMessageHistory s"
    "filter is_tool_event (responseChunks s') = filter is_tool_event (responseChunks s)"
  shows "records_ok s'"
  using assms by (simp add: records_ok_def)

lemma onTagEnd_invariant:
  assumes inv: "invariant history s" and p: "phase s = Streaming"
  shows "invariant history (snd (onTagEnd P toolName x inp s))"
proof (cases "aborted s")
  case True
  with inv show ?thesis by (simp add: onTagEnd_aborted)
next
  case na: False
  from inv have sp: "spine_ok s" and rc: "records_ok s" and g: "gate_ok s"
    and h: "history_ok history s" by (simp_all add: invariant_def)
  show ?thesis
  proof (cases "refusal P toolName inp")
    case (Some msg)
    note eq = onTagEnd_refused [OF na Some, of x]
    let ?s = "snd (onTagEnd P toolName x inp s)"
    have "spine_ok ?s" unfolding eq snd_conv by (rule spine_refused [OF sp])
    moreover have "records_ok ?s"
      by (rule records_frame [OF rc]) (simp_all add: eq)
    moreover have "gate_ok ?s"
      using g p previousPromise_root [OF sp, of x]
      by (cases "tasks s") (auto simp: gate_ok_def eq root_of_def)
    moreover have "history_ok history ?s"
      using h p by (simp add: history_ok_def eq)
    ultimately show ?thesis by (simp add: invariant_def)
  next
    case None
    obtain custom name inp' where ea: "executor_arguments P toolName inp = (custom, name, inp')"
      by (cases "executor_arguments P toolName inp") auto
    note eq = onTagEnd_accepted [OF na None ea, of x]
    let ?s = "snd (onTagEnd P toolName x inp s)"
    have "spine_ok ?s" unfolding eq snd_conv by (rule spine_accepted [OF sp])
    moreover have "records_ok ?s"
      by (rule records_frame [OF rc]) (simp_all add: eq)
    moreover have "gate_ok ?s"
      using g p by (cases "tasks s") (auto simp: gate_ok_def eq root_of_def)
    moreover have "history_ok history ?s"
      using h p by (simp add: history_ok_def eq)
    ultimately show ?thesis by (simp add: invariant_def)
  qed
qed


lemma invariant_frame:
  assumes "invariant history s" "phase s \<noteq> Committed"
    and "tasks s' = tasks s" "previousToolCallFinished s' = previousToolCallFinished s"
    and "idsIssued s' = idsIssued s" "toolCalls s' = toolCalls s"
    and "toolCallsToAddToMessageHistory s' = toolCallsToAddToMessageHistory s"
    and "toolResults s' = toolResults s"
    and "toolResultsToAddToMessageHistory s' = toolResultsToAddToMessageHistory s"
    and "filter is_tool_event (responseChunks s') = filter is_tool_event (responseChunks s)"
    and "streamDoneResolved s' = streamDoneResolved s" "phase s' = phase s"
    and "messageHistory s' = messageHistory s"
    and "messageHistoryBeforeStream s' = messageHistoryBeforeStream s"
    and "abortedAtExit s' = abortedAtExit s"
    and "parserAwaits s' = parserAwaits s \<or> phase s = Streaming"
  shows "invariant history s'"
proof -
  have root: "root_of s' = root_of s" using assms(3,4) by (rule root_of_frame)
  from assms show ?thesis
    by (auto simp: invariant_def spine_ok_def records_ok_def gate_ok_def history_ok_def root)
qed

lemma chain_work:
  "chain p b ts \<Longrightarrow>
   chain p b (map (\<lambda>t. if task_id t = k \<and> work t = None then t\<lparr>work := Some v\<rparr> else t) ts)"
  by (induction ts arbitrary: p b) auto

lemma filter_settled_work:
  "chain p b ts \<Longrightarrow>
   filter settled (map (\<lambda>t. if task_id t = k \<and> work t = None then t\<lparr>work := Some v\<rparr> else t) ts)
     = filter settled ts"
  by (induction ts arbitrary: p b) auto

lemma handler_done_invariant:
  assumes inv: "invariant history s" and p: "phase s \<noteq> Committed"
  shows "invariant history (handler_done k v s)"
proof -
  let ?f = "\<lambda>t. if task_id t = k \<and> work t = None then t\<lparr>work := Some v\<rparr> else t"
  let ?s = "handler_done k v s"
  have ts: "tasks ?s = map ?f (tasks s)"
    by (simp add: handler_done_def task_id_def)
  have other: "previousToolCallFinished ?s = previousToolCallFinished s"
    "idsIssued ?s = idsIssued s" "toolCalls ?s = toolCalls s"
    "toolCallsToAddToMessageHistory ?s = toolCallsToAddToMessageHistory s"
    "toolResults ?s = toolResults s"
    "toolResultsToAddToMessageHistory ?s = toolResultsToAddToMessageHistory s"
    "responseChunks ?s = responseChunks s" "streamDoneResolved ?s = streamDoneResolved s"
    "phase ?s = phase s" "messageHistory ?s = messageHistory s"
    "messageHistoryBeforeStream ?s = messageHistoryBeforeStream s"
    "abortedAtExit ?s = abortedAtExit s" "parserAwaits ?s = parserAwaits s"
    "aborted ?s = aborted s"
    by (simp_all add: handler_done_def)
  from inv have sp: "spine_ok s" and rc: "records_ok s" and g: "gate_ok s"
    and h: "history_ok history s" by (simp_all add: invariant_def)
  from sp have c: "chain (root_of s) True (tasks s)" by (simp add: spine_ok_def)
  have root: "root_of ?s = root_of s"
    by (cases "tasks s") (simp_all add: root_of_def ts other)
  have ids: "map (task_id \<circ> ?f) (tasks s) = map task_id (tasks s)"
    by (rule map_cong) auto
  have lst: "tasks s \<noteq> [] \<Longrightarrow> task_id (last (map ?f (tasks s))) = task_id (last (tasks s))"
    by (simp add: last_map)
  have st: "\<forall>t \<in> set (tasks s). settled (?f t) = settled t" by simp
  have "spine_ok ?s"
    using sp chain_work [OF c, of k v] lst
    by (auto simp: spine_ok_def root ts other ids)
  moreover have "records_ok ?s"
    by (rule records_frame [OF rc]) (simp_all add: ts other filter_settled_work [OF c])
  moreover have "gate_ok ?s"
    using g by (auto simp: gate_ok_def root ts other)
  moreover have "history_ok history ?s"
    using h p by (auto simp: history_ok_def ts other)
  ultimately show ?thesis by (simp add: invariant_def)
qed

lemma leave_loop_invariant:
  assumes inv: "invariant history s" and p: "phase s = Streaming" and pa: "parserAwaits s = None"
  shows "invariant history (leave_loop P s)"
proof (cases "aborted s")
  case True
  let ?s = "s\<lparr>abortedAtExit := True\<rparr>"
  have root: "root_of (finalization ?s) = root_of s"
    by (rule root_of_frame) (simp_all add: finalization_def)
  from inv p pa True show ?thesis
    by (simp add: leave_loop_def invariant_def spine_ok_def records_ok_def gate_ok_def
        history_ok_def root)
       (simp add: finalization_def)
next
  case False
  let ?s = "s\<lparr>abortedAtExit := False, streamDoneResolved := True, phase := Draining\<rparr>"
  have root: "root_of ?s = root_of s" by (rule root_of_frame) simp_all
  from inv p pa have "invariant history ?s"
    by (simp add: invariant_def spine_ok_def records_ok_def gate_ok_def history_ok_def root)
  then show ?thesis using False by (simp add: leave_loop_def wake_invariant)
qed

lemma react_invariant:
  assumes inv: "invariant history s" and p: "phase s \<noteq> Committed"
  shows "invariant history (react P e s)"
proof (cases e)
  case Abort
  show ?thesis unfolding Abort react.simps
    by (rule invariant_frame [OF inv p]) simp_all
next
  case (ParserText str)
  show ?thesis unfolding ParserText react.simps
    using inv
    by (auto simp: parser_runs_def parser_text_def onResponseChunk_def
        intro!: invariant_frame [OF inv p])
next
  case (ParserError msg)
  show ?thesis unfolding ParserError react.simps
    using inv
    by (auto simp: parser_runs_def parser_error_def onResponseChunk_def
        intro!: invariant_frame [OF inv p])
next
  case (TagEnd toolName inp)
  show ?thesis unfolding TagEnd react.simps
    using inv by (auto simp: parser_runs_def intro: onTagEnd_invariant)
next
  case (XmlToolCall toolName inp)
  show ?thesis
  proof (cases "parser_runs s")
    case False
    with inv show ?thesis by (simp add: XmlToolCall)
  next
    case True
    then have st: "phase s = Streaming" by (simp add: parser_runs_def)
    obtain awaited s' where x: "executeXmlToolCall P toolName inp s = (awaited, s')"
      by (cases "executeXmlToolCall P toolName inp s") auto
    have s': "s' = snd (onTagEnd P toolName True inp s)"
      using x by (auto simp: executeXmlToolCall_def onTagEnd_aborted split: if_splits)
    have i': "invariant history s'" unfolding s' using inv st by (rule onTagEnd_invariant)
    have p': "phase s' = Streaming"
      using st unfolding s'
      by (cases "aborted s"; cases "refusal P toolName inp";
          cases "executor_arguments P toolName inp")
         (simp_all add: onTagEnd_aborted onTagEnd_refused onTagEnd_accepted)
    have "invariant history (s'\<lparr>parserAwaits := awaited\<rparr>)"
      by (rule invariant_frame [OF i']) (simp_all add: p')
    with True x show ?thesis by (simp add: XmlToolCall)
  qed
next
  case (Yield chunk)
  show ?thesis
  proof (cases "parser_runs s")
    case False
    with inv show ?thesis by (simp add: Yield)
  next
    case True
    then have st: "phase s = Streaming" "parserAwaits s = None" by (simp_all add: parser_runs_def)
    let ?s1 = "case chunk of
                  ReasoningChunk text \<Rightarrow> onResponseChunk (ReasoningDelta text) s
                | TextChunk text \<Rightarrow>
                    (onResponseChunk (Chunk text) s)
                      \<lparr>fullResponseChunks := fullResponseChunks s @ [text]\<rparr>
                | ErrorChunk msg \<Rightarrow>
                    (onResponseChunk (ErrorEvent msg) s)
                      \<lparr>hadToolCallError := True,
                        errorMessages := errorMessages s
                          @ [userMessage (withSystemTags P (tool_call_error_text msg))]\<rparr>
                | ToolCallChunk toolName inp \<Rightarrow> s"
    have i1: "invariant history ?s1"
      by (rule invariant_frame [OF inv p]) (simp_all add: onResponseChunk_def split: stream_chunk.splits)
    have f1: "phase ?s1 = Streaming" "parserAwaits ?s1 = None"
      using st by (simp_all add: onResponseChunk_def split: stream_chunk.splits)
    show ?thesis
      using True i1 leave_loop_invariant [OF i1 f1]
      by (simp add: Yield loop_body_def Let_def)
  qed
next
  case (Done chunk)
  show ?thesis
  proof (cases "parser_runs s")
    case False
    with inv show ?thesis by (simp add: Done)
  next
    case True
    then have st: "phase s = Streaming" "parserAwaits s = None" by (simp_all add: parser_runs_def)
    let ?s1 = "s\<lparr>messageId := (case chunk of PromptAborted \<Rightarrow> None | PromptSuccess v \<Rightarrow> v
                                  | Bare v \<Rightarrow> v)\<rparr>"
    have i1: "invariant history ?s1"
      by (rule invariant_frame [OF inv p]) simp_all
    show ?thesis
      using True leave_loop_invariant [OF i1] st
      by (simp add: Done loop_done_def)
  qed
next
  case (HandlerDone k v)
  show ?thesis unfolding HandlerDone react.simps
    using inv p by (rule handler_done_invariant)
qed

lemma step_invariant: "invariant history s \<Longrightarrow> invariant history (step P s e)"
  by (simp add: step_def react_invariant wake_invariant)

lemma steps_invariant: "invariant history s \<Longrightarrow> invariant history (foldl (step P) s es)"
  by (induction es arbitrary: s) (simp_all add: step_invariant)

lemma initial_invariant: "invariant history (initial history fullResponse a)"
  by (simp add: initial_def invariant_def spine_ok_def records_ok_def gate_ok_def
      history_ok_def root_of_def)

lemma enter_invariant: "invariant history (enter P history fullResponse a)"
proof -
  have "invariant history (leave_loop P (initial history fullResponse a))"
    by (rule leave_loop_invariant [OF initial_invariant]) (simp_all add: initial_def)
  then show ?thesis
    by (simp add: enter_def Let_def initial_invariant)
qed

lemma processStream_invariant:
  "invariant history (processStream P history fullResponse a events)"
  by (simp add: processStream_def steps_invariant enter_invariant)

subsection \<open>Pairing\<close>

lemma paired_append:
  "paired seen (xs @ ys) \<longleftrightarrow> paired seen xs \<and> paired (seen_after seen xs) ys"
  by (induction seen xs rule: paired.induct) auto

lemma seen_after_append:
  "seen_after seen (xs @ ys) = seen_after (seen_after seen xs) ys"
  by (induction seen xs rule: seen_after.induct) auto

lemma seen_after_mono: "set seen \<subseteq> set (seen_after seen xs)"
  by (induction seen xs rule: seen_after.induct) auto

lemma paired_plain: "\<not> list_ex is_tool_result xs \<Longrightarrow> paired seen xs"
  by (induction seen xs rule: paired.induct) auto

lemma assistantToolCall_simps [simp]:
  "seen_after seen (assistantToolCall c # ms) = seen_after (call_id c # seen) ms"
  "paired seen (assistantToolCall c # ms) = paired (call_id c # seen) ms"
  by (simp_all add: assistantToolCall_def)

lemma paired_calls: "paired seen (map assistantToolCall calls)"
  by (induction calls arbitrary: seen) auto

lemma seen_after_calls:
  "set (map call_id calls) \<subseteq> set (seen_after seen (map assistantToolCall calls))"
proof (induction calls arbitrary: seen)
  case Nil
  then show ?case by simp
next
  case (Cons c calls)
  have "call_id c \<in> set (seen_after (call_id c # seen) (map assistantToolCall calls))"
    using seen_after_mono [of "call_id c # seen"] by auto
  with Cons show ?case by auto
qed

lemma paired_results:
  "paired seen (map ToolResult rs) \<longleftrightarrow> set (map result_id rs) \<subseteq> set seen"
  by (induction rs) auto

lemma paired_commit:
  assumes "paired [] history" "\<not> list_ex is_tool_result texts" "\<not> list_ex is_tool_result errors"
    and "map result_id results = map call_id calls"
  shows "paired [] (history @ texts @ map assistantToolCall calls @ map ToolResult results
           @ errors)"
proof -
  let ?a = "seen_after [] history"
  let ?b = "seen_after ?a texts"
  let ?c = "seen_after ?b (map assistantToolCall calls)"
  have "set (map result_id results) \<subseteq> set ?c"
    using seen_after_calls [of calls ?b] assms(4) by simp
  then show ?thesis
    using assms(1-3)
    by (simp add: paired_append paired_plain paired_calls paired_results del: set_map)
qed


subsection \<open>What the executions change\<close>

lemma progress_refl [simp]: "progress s s"
  by (simp add: progress_def)

lemma progress_trans:
  assumes a: "progress s s'" and b: "progress s' s''"
  shows "progress s s''"
proof -
  from a obtain e1 c1 r1 where 1: "responseChunks s' = responseChunks s @ e1"
    "list_all is_tool_event e1"
    "toolCallsToAddToMessageHistory s' = toolCallsToAddToMessageHistory s @ c1"
    "toolResultsToAddToMessageHistory s' = toolResultsToAddToMessageHistory s @ r1"
    unfolding progress_def by blast
  from b obtain e2 c2 r2 where 2: "responseChunks s'' = responseChunks s' @ e2"
    "list_all is_tool_event e2"
    "toolCallsToAddToMessageHistory s'' = toolCallsToAddToMessageHistory s' @ c2"
    "toolResultsToAddToMessageHistory s'' = toolResultsToAddToMessageHistory s' @ r2"
    unfolding progress_def by blast
  have "responseChunks s'' = responseChunks s @ (e1 @ e2)" "list_all is_tool_event (e1 @ e2)"
    "toolCallsToAddToMessageHistory s'' = toolCallsToAddToMessageHistory s @ (c1 @ c2)"
    "toolResultsToAddToMessageHistory s'' = toolResultsToAddToMessageHistory s @ (r1 @ r2)"
    using 1 2 by simp_all
  then have "(\<exists>evs. responseChunks s'' = responseChunks s @ evs \<and> list_all is_tool_event evs)
      \<and> (\<exists>n. toolCallsToAddToMessageHistory s'' = toolCallsToAddToMessageHistory s @ n)
      \<and> (\<exists>n. toolResultsToAddToMessageHistory s''
                = toolResultsToAddToMessageHistory s @ n)"
    by blast
  moreover from a b have "aborted s'' = aborted s
      \<and> idsIssued s'' = idsIssued s
      \<and> map call (tasks s'') = map call (tasks s)
      \<and> map waitsOn (tasks s'') = map waitsOn (tasks s)
      \<and> map work (tasks s'') = map work (tasks s)
      \<and> previousToolCallFinished s'' = previousToolCallFinished s
      \<and> errorMessages s'' = errorMessages s
      \<and> hadToolCallError s'' = hadToolCallError s
      \<and> assistantMessages s'' = assistantMessages s
      \<and> fullResponseChunks s'' = fullResponseChunks s
      \<and> messageId s'' = messageId s
      \<and> streamDoneResolved s'' = streamDoneResolved s
      \<and> abortedAtExit s'' = abortedAtExit s
      \<and> messageHistoryBeforeStream s'' = messageHistoryBeforeStream s"
    by (simp add: progress_def)
  ultimately show ?thesis unfolding progress_def by blast
qed

lemma mark_settled_maps [simp]:
  "map call (map (mark_settled k) ts) = map call ts"
  "map waitsOn (map (mark_settled k) ts) = map waitsOn ts"
  "map work (map (mark_settled k) ts) = map work ts"
  by (simp_all add: comp_def)

lemma record_result_progress: "progress s (record_result P t s)"
proof (cases "work t")
  case None
  then show ?thesis by (simp add: record_result_def)
next
  case (Some v)
  then have w: "work t \<noteq> None" by simp
  show ?thesis
    unfolding progress_def record_result_fields [OF w]
    by (simp add: events_of_def)
qed

lemma settle_step_progress: "progress s (settle_step P s)"
  using settle_step_cases [of P s] by (auto simp: record_result_progress)

lemma settle_steps_progress: "progress s ((settle_step P ^^ n) s)"
  by (induction n) (auto intro: progress_trans settle_step_progress)

lemma settle_progress: "progress s (settle P s)"
  by (simp add: settle_def settle_steps_progress)

lemma progress_parserAwaits [simp]: "progress s (s'\<lparr>parserAwaits := q\<rparr>) = progress s s'"
  by (simp add: progress_def)

lemma progress_finalization [simp]: "progress s (finalization s') = progress s s'"
  by (simp add: progress_def finalization_def)

lemma wake_progress: "progress s (wake P s)"
  by (auto simp: wake_def Let_def settle_progress split: option.splits)

lemma plain_progress: "progress s s' \<Longrightarrow> plain_ok s \<Longrightarrow> plain_ok s'"
  by (simp add: progress_def plain_ok_def)

lemma plain_wake: "plain_ok s \<Longrightarrow> plain_ok (wake P s)"
  using wake_progress by (rule plain_progress)

lemma plain_finalization [simp]: "plain_ok (finalization s) = plain_ok s"
  by (simp add: plain_ok_def finalization_def)

lemma plain_leave_loop: "plain_ok s \<Longrightarrow> plain_ok (leave_loop P s)"
  by (auto simp: leave_loop_def intro!: plain_wake) (simp_all add: plain_ok_def)

lemma plain_onTagEnd: "plain_ok s \<Longrightarrow> plain_ok (snd (onTagEnd P toolName x inp s))"
  by (cases "aborted s"; cases "refusal P toolName inp";
      cases "executor_arguments P toolName inp")
     (simp_all add: onTagEnd_aborted onTagEnd_refused onTagEnd_accepted plain_ok_def
        userMessage_def)

lemma plain_react: "plain_ok s \<Longrightarrow> plain_ok (react P e s)"
proof (cases e)
  case (XmlToolCall toolName inp)
  assume pl: "plain_ok s"
  have "plain_ok (snd (executeXmlToolCall P toolName inp s))"
    using pl plain_onTagEnd [OF pl, of P toolName True inp]
    by (simp add: executeXmlToolCall_def)
  with pl show ?thesis
    by (auto simp: XmlToolCall plain_ok_def split: prod.splits)
next
  case (Yield chunk)
  assume pl: "plain_ok s"
  have "plain_ok (case chunk of
                  ReasoningChunk str \<Rightarrow> onResponseChunk (ReasoningDelta str) s
                | TextChunk str \<Rightarrow>
                    (onResponseChunk (Chunk str) s)
                      \<lparr>fullResponseChunks := fullResponseChunks s @ [str]\<rparr>
                | ErrorChunk msg \<Rightarrow>
                    (onResponseChunk (ErrorEvent msg) s)
                      \<lparr>hadToolCallError := True,
                        errorMessages := errorMessages s
                          @ [userMessage (withSystemTags P (tool_call_error_text msg))]\<rparr>
                | ToolCallChunk toolName inp \<Rightarrow> s)"
    using pl by (simp add: plain_ok_def onResponseChunk_def userMessage_def
        split: stream_chunk.splits)
  with pl show ?thesis
    by (auto simp: Yield loop_body_def Let_def intro: plain_leave_loop)
next
  case (Done chunk)
  assume pl: "plain_ok s"
  then have "plain_ok (s\<lparr>messageId := (case chunk of PromptAborted \<Rightarrow> None
                 | PromptSuccess v \<Rightarrow> v | Bare v \<Rightarrow> v)\<rparr>)"
    by (simp add: plain_ok_def)
  with pl show ?thesis
    by (auto simp: Done loop_done_def intro: plain_leave_loop)
next
  case (TagEnd toolName inp)
  assume pl: "plain_ok s"
  with plain_onTagEnd [OF pl, of P toolName False inp] show ?thesis
    by (simp add: TagEnd)
qed (auto simp: plain_ok_def parser_text_def parser_error_def onResponseChunk_def
       assistantMessage_def handler_done_def)

lemma plain_step: "plain_ok s \<Longrightarrow> plain_ok (step P s e)"
  by (simp add: step_def plain_react plain_wake)

lemma plain_steps: "plain_ok s \<Longrightarrow> plain_ok (foldl (step P) s es)"
  by (induction es arbitrary: s) (simp_all add: plain_step)

lemma plain_processStream: "plain_ok (processStream P history fullResponse a events)"
proof -
  have "plain_ok (initial history fullResponse a)" by (simp add: plain_ok_def initial_def)
  then have "plain_ok (enter P history fullResponse a)"
    by (simp add: enter_def Let_def plain_leave_loop)
  then show ?thesis by (simp add: processStream_def plain_steps)
qed


subsection \<open>Results are committed only after every execution has settled\<close>

lemma result_of_id [simp]: "result_id (result_of t) = task_id t"
  by (simp add: result_of_def)

lemma call_id_task: "call_id (call t) = task_id t"
  by (simp add: task_id_def)

text \<open>
  C1. When a step is finalized and was not aborted as it left the stream loop, the message
  history is the snapshot, then the assistant text messages, then one assistant tool-call
  message for each recorded tool call, then the recorded tool messages, then the user error
  messages. The recorded calls are those of all the executions started, in the order of
  their ids, which is the order in which they were parsed; the tool messages carry the same
  ids in the same order; every execution has settled by then; and if every tool message of
  the snapshot follows a tool-call part of its id, so does every tool message of the new
  history.
\<close>

theorem commit_after_all_settled:
  assumes s: "s = processStream P history fullResponse signalAborted events"
    and c: "phase s = Committed" and na: "\<not> abortedAtExit s"
  shows "messageHistory s =
           history @ assistantMessages s
           @ map assistantToolCall (toolCallsToAddToMessageHistory s)
           @ map ToolResult (toolResultsToAddToMessageHistory s)
           @ errorMessages s
     \<and> toolCallsToAddToMessageHistory s = map call (tasks s)
     \<and> sorted_wrt (<) (map call_id (toolCallsToAddToMessageHistory s))
     \<and> map result_id (toolResultsToAddToMessageHistory s)
         = map call_id (toolCallsToAddToMessageHistory s)
     \<and> (\<forall>t \<in> set (tasks s). settled t)
     \<and> (paired [] history \<longrightarrow> paired [] (messageHistory s))"
proof -
  have inv: "invariant history s" unfolding s by (rule processStream_invariant)
  have pl: "plain_ok s" unfolding s by (rule plain_processStream)
  from inv c na have all: "\<forall>t \<in> set (tasks s). settled t"
    by (simp add: invariant_def history_ok_def)
  then have f: "filter settled (tasks s) = tasks s" by simp
  from inv c have h: "messageHistory s =
           history @ assistantMessages s
           @ map assistantToolCall (toolCallsToAddToMessageHistory s)
           @ map ToolResult (toolResultsToAddToMessageHistory s)
           @ errorMessages s"
    by (simp add: invariant_def history_ok_def)
  from inv have calls: "toolCallsToAddToMessageHistory s = map call (tasks s)"
    and results: "toolResultsToAddToMessageHistory s = map result_of (tasks s)"
    by (simp_all add: invariant_def records_ok_def f)
  from inv have sorted: "sorted_wrt (<) (map task_id (tasks s))"
    by (simp add: invariant_def spine_ok_def)
  have ids: "map result_id (toolResultsToAddToMessageHistory s)
         = map call_id (toolCallsToAddToMessageHistory s)"
    by (simp add: calls results comp_def call_id_task)
  have p: "paired [] (messageHistory s)" if "paired [] history"
    unfolding h using that pl ids by (intro paired_commit) (simp_all add: plain_ok_def)
  show ?thesis
    using h calls sorted ids all p by (simp add: comp_def call_id_task)
qed

lemma two_tools_run:
  "phase (example_run two_tools) = Committed"
  "abortedAtExit (example_run two_tools) = False"
  "messageHistory (example_run two_tools) =
     [UserMessage ''list files'',
      AssistantMessage [TextPart ''ok: ''],
      AssistantMessage [ToolCallPart (ToolCall 0 ''read_files'' (JString ''a.ts''))],
      AssistantMessage [ToolCallPart (ToolCall 1 ''end_turn'' JNull)],
      ToolResult (ToolMessage 0 ''read_files'' (JString ''x'')),
      ToolResult (ToolMessage 1 ''end_turn'' JNull)]"
  by code_simp+


theorem commit_after_all_settled_witness:
  "phase (example_run two_tools) = Committed
   \<and> \<not> abortedAtExit (example_run two_tools)
   \<and> paired [] [UserMessage ''list files'']
   \<and> paired [] (messageHistory (example_run two_tools))
   \<and> list_all settled (tasks (example_run two_tools))
   \<and> messageHistory (example_run two_tools) =
     [UserMessage ''list files'',
      AssistantMessage [TextPart ''ok: ''],
      AssistantMessage [ToolCallPart (ToolCall 0 ''read_files'' (JString ''a.ts''))],
      AssistantMessage [ToolCallPart (ToolCall 1 ''end_turn'' JNull)],
      ToolResult (ToolMessage 0 ''read_files'' (JString ''x'')),
      ToolResult (ToolMessage 1 ''end_turn'' JNull)]"
proof -
  have c: "phase (example_run two_tools) = Committed"
    and a: "\<not> abortedAtExit (example_run two_tools)"
    using two_tools_run(1,2) by simp_all
  have p: "paired [] [UserMessage ''list files'']" by simp
  from commit_after_all_settled [OF example_run_def c a] p
  have "paired [] (messageHistory (example_run two_tools))"
    and "\<forall>t \<in> set (tasks (example_run two_tools)). settled t"
    by blast+
  with c a p two_tools_run(3) show ?thesis
    by (simp add: list_all_iff)
qed

subsection \<open>Results are recorded in the order the parser saw the calls\<close>

lemma events_for_task [simp]: "events_for (call t, result_of t) = events_of t"
  by (cases "call t") (simp add: result_of_def events_of_def task_id_def)

lemma zip_calls_results:
  "concat (map events_for (zip (map call ts) (map result_of ts))) = concat (map events_of ts)"
  by (induction ts) simp_all

text \<open>
  C2, as stated, fails: an execution does not always await the
  \<open>previousToolCallFinished\<close> handle captured at its dispatch. When the first call of a
  step is an inline call, that handle still is the stream-done promise, and the execution
  is chained on a resolved promise instead; it records its call and its result as soon as
  its handler is done, while the stream-done promise is unresolved and the loop still
  runs.
\<close>

theorem first_inline_call_awaits_resolved:
  "\<not> aborted (example_run [])
   \<and> refusal example_params ''read_files'' (JString ''a.ts'') = None
   \<and> previousToolCallFinished (example_run []) = StreamDonePromise
   \<and> map waitsOn (tasks (snd (onTagEnd example_params ''read_files'' True (JString ''a.ts'')
         (example_run []))))
       = [ResolvedPromise]
   \<and> map waitsOn (tasks (snd (onTagEnd example_params ''read_files'' True (JString ''a.ts'')
         (example_run []))))
       \<noteq> [previousToolCallFinished (example_run [])]
   \<and> \<not> streamDoneResolved (example_run (take 3 inline_first))
   \<and> phase (example_run (take 3 inline_first)) = Streaming
   \<and> toolResults (example_run (take 3 inline_first))
       = [ToolMessage 0 ''read_files'' (JString ''x'')]"
  by code_simp

text \<open>
  C2, amended. In every state of a step: a call that is dispatched and accepted starts an
  execution that awaits the promise handed to its executor, which is the
  \<open>previousToolCallFinished\<close> handle read at its dispatch unless the call is inline and
  that handle still is the stream-done promise; then no execution has been started in the
  step and the promise awaited is a resolved one. \<open>previousToolCallFinished\<close> becomes
  that execution's promise, so the executions form one chain in the order of their ids.
  The recorded tool calls and tool messages are those of the settled executions in that
  order, with increasing ids, and the tool events of the response are, call by call in
  that order, the \<open>tool_call\<close> event followed by the \<open>tool_result\<close> event.
\<close>

theorem recorded_in_parse_order:
  assumes s: "s = processStream P history fullResponse signalAborted events"
  shows "(\<not> aborted s \<and> refusal P toolName inp = None \<longrightarrow>
            (\<exists>t. tasks (snd (onTagEnd P toolName x inp s)) = tasks s @ [t]
               \<and> task_id t = idsIssued s \<and> waitsOn t = previousPromise x s \<and> \<not> settled t
               \<and> waitsOn t
                   = (if x \<and> previousToolCallFinished s = StreamDonePromise
                      then ResolvedPromise else previousToolCallFinished s)
               \<and> (waitsOn t \<noteq> previousToolCallFinished s \<longrightarrow>
                    x \<and> tasks s = [] \<and> previousToolCallFinished s = StreamDonePromise
                    \<and> waitsOn t = ResolvedPromise)
               \<and> previousToolCallFinished (snd (onTagEnd P toolName x inp s))
                   = ToolPromise (task_id t)))
     \<and> chain (root_of s) True (tasks s)
     \<and> sorted_wrt (<) (map task_id (tasks s))
     \<and> toolCalls s = map call (filter settled (tasks s))
     \<and> toolResults s = map result_of (filter settled (tasks s))
     \<and> map result_id (toolResults s) = map call_id (toolCalls s)
     \<and> sorted_wrt (<) (map result_id (toolResults s))
     \<and> filter is_tool_event (responseChunks s)
         = concat (map events_for (zip (toolCalls s) (toolResults s)))"
proof -
  have inv: "invariant history s" unfolding s by (rule processStream_invariant)
  then have sp: "spine_ok s" and rc: "records_ok s" by (simp_all add: invariant_def)
  have first: "tasks s = []" if "previousToolCallFinished s = StreamDonePromise"
  proof (rule ccontr)
    assume "tasks s \<noteq> []"
    with sp have "previousToolCallFinished s = ToolPromise (task_id (last (tasks s)))"
      by (simp add: spine_ok_def)
    with that show False by simp
  qed
  have d: "\<exists>t. tasks (snd (onTagEnd P toolName x inp s)) = tasks s @ [t]
               \<and> task_id t = idsIssued s \<and> waitsOn t = previousPromise x s \<and> \<not> settled t
               \<and> waitsOn t
                   = (if x \<and> previousToolCallFinished s = StreamDonePromise
                      then ResolvedPromise else previousToolCallFinished s)
               \<and> (waitsOn t \<noteq> previousToolCallFinished s \<longrightarrow>
                    x \<and> tasks s = [] \<and> previousToolCallFinished s = StreamDonePromise
                    \<and> waitsOn t = ResolvedPromise)
               \<and> previousToolCallFinished (snd (onTagEnd P toolName x inp s))
                   = ToolPromise (task_id t)"
    if "\<not> aborted s" "refusal P toolName inp = None"
  proof -
    obtain custom name inp' where ea: "executor_arguments P toolName inp = (custom, name, inp')"
      by (cases "executor_arguments P toolName inp") auto
    show ?thesis
      unfolding onTagEnd_accepted [OF that ea]
      using first by (simp add: task_id_def previousPromise_def)
  qed
  from sp have so: "sorted_wrt (<) (map task_id (tasks s))" by (simp add: spine_ok_def)
  have sf: "sorted_wrt (<) (map task_id (filter settled (tasks s)))"
    using so by (simp add: sorted_wrt_map sorted_wrt_filter)
  from rc have tc: "toolCalls s = map call (filter settled (tasks s))"
    and tr: "toolResults s = map result_of (filter settled (tasks s))"
    and ev: "filter is_tool_event (responseChunks s)
          = concat (map events_of (filter settled (tasks s)))"
    by (simp_all add: records_ok_def)
  have ids: "map result_id (toolResults s) = map call_id (toolCalls s)"
    by (simp add: tc tr comp_def call_id_task)
  have sr: "sorted_wrt (<) (map result_id (toolResults s))"
    using sf by (simp add: tr comp_def)
  have ev': "filter is_tool_event (responseChunks s)
         = concat (map events_for (zip (toolCalls s) (toolResults s)))"
    unfolding ev tc tr by (simp add: zip_calls_results)
  from sp have ch: "chain (root_of s) True (tasks s)" by (simp add: spine_ok_def)
  show ?thesis using d ch so tc tr ids sr ev' by blast
qed

theorem recorded_in_parse_order_witness:
  "\<not> aborted (example_run (take 4 two_tools))
   \<and> refusal example_params ''read_files'' (JString ''b.ts'') = None
   \<and> map waitsOn (tasks (snd (onTagEnd example_params ''read_files'' False (JString ''b.ts'')
         (example_run (take 4 two_tools)))))
       = [StreamDonePromise, ToolPromise 0, ToolPromise 1]
   \<and> previousToolCallFinished (snd (onTagEnd example_params ''read_files'' False
         (JString ''b.ts'') (example_run (take 4 two_tools)))) = ToolPromise 2
   \<and> \<not> aborted (example_run [])
   \<and> previousToolCallFinished (example_run []) = StreamDonePromise
   \<and> map waitsOn (tasks (snd (onTagEnd example_params ''read_files'' True (JString ''b.ts'')
         (example_run []))))
       = [ResolvedPromise]
   \<and> previousToolCallFinished (snd (onTagEnd example_params ''read_files'' True
         (JString ''b.ts'') (example_run []))) = ToolPromise 0
   \<and> toolResults (example_run (take 4 two_tools)) = []
   \<and> toolResults (example_run two_tools)
       = [ToolMessage 0 ''read_files'' (JString ''x''), ToolMessage 1 ''end_turn'' JNull]
   \<and> filter is_tool_event (responseChunks (example_run two_tools))
       = [ToolCallEvent 0 ''read_files'' (JString ''a.ts''),
          ToolResultEvent 0 ''read_files'' (JString ''x''),
          ToolCallEvent 1 ''end_turn'' JNull,
          ToolResultEvent 1 ''end_turn'' JNull]"
proof -
  have a: "\<not> aborted (example_run (take 4 two_tools))"
    and r: "refusal example_params ''read_files'' (JString ''b.ts'') = None"
    and w: "map waitsOn (tasks (snd (onTagEnd example_params ''read_files'' False
         (JString ''b.ts'') (example_run (take 4 two_tools)))))
       = [StreamDonePromise, ToolPromise 0, ToolPromise 1]"
    and e: "toolResults (example_run (take 4 two_tools)) = []"
    and tc: "toolCalls (example_run two_tools)
       = [ToolCall 0 ''read_files'' (JString ''a.ts''), ToolCall 1 ''end_turn'' JNull]"
    and tr: "toolResults (example_run two_tools)
       = [ToolMessage 0 ''read_files'' (JString ''x''), ToolMessage 1 ''end_turn'' JNull]"
    and i: "idsIssued (example_run (take 4 two_tools)) = 2"
    and a0: "\<not> aborted (example_run [])"
    and p0: "previousToolCallFinished (example_run []) = StreamDonePromise"
    and t0: "tasks (example_run []) = []"
    and i0: "idsIssued (example_run []) = 0"
    by code_simp+
  from recorded_in_parse_order [OF example_run_def, of "take 4 two_tools" "''read_files''"
      "JString ''b.ts''" False] a r i
  have p: "previousToolCallFinished (snd (onTagEnd example_params ''read_files'' False
         (JString ''b.ts'') (example_run (take 4 two_tools)))) = ToolPromise 2"
    by auto
  from recorded_in_parse_order [OF example_run_def, of "[]" "''read_files''"
      "JString ''b.ts''" True] a0 r
  obtain t where "tasks (snd (onTagEnd example_params ''read_files'' True (JString ''b.ts'')
         (example_run []))) = tasks (example_run []) @ [t]"
    and "task_id t = idsIssued (example_run [])"
    and "waitsOn t
           = (if True \<and> previousToolCallFinished (example_run []) = StreamDonePromise
              then ResolvedPromise else previousToolCallFinished (example_run []))"
    and "previousToolCallFinished (snd (onTagEnd example_params ''read_files'' True
         (JString ''b.ts'') (example_run []))) = ToolPromise (task_id t)"
    by blast
  then have x: "map waitsOn (tasks (snd (onTagEnd example_params ''read_files'' True
         (JString ''b.ts'') (example_run [])))) = [ResolvedPromise]"
    and px: "previousToolCallFinished (snd (onTagEnd example_params ''read_files'' True
         (JString ''b.ts'') (example_run []))) = ToolPromise 0"
    by (simp_all add: p0 t0 i0)
  from recorded_in_parse_order [OF example_run_def, of two_tools]
  have "filter is_tool_event (responseChunks (example_run two_tools))
         = concat (map events_for (zip (toolCalls (example_run two_tools))
             (toolResults (example_run two_tools))))"
    by blast
  then have ev: "filter is_tool_event (responseChunks (example_run two_tools))
       = [ToolCallEvent 0 ''read_files'' (JString ''a.ts''),
          ToolResultEvent 0 ''read_files'' (JString ''x''),
          ToolCallEvent 1 ''end_turn'' JNull,
          ToolResultEvent 1 ''end_turn'' JNull]"
    by (simp add: tc tr)
  show ?thesis using a r w p a0 p0 x px e tr ev by simp
qed

subsection \<open>How a step moves on\<close>

lemma advance_refl [simp]: "advance s s"
  by (simp add: advance_def)

lemma advance_trans:
  assumes a: "advance s s'" and b: "advance s' s''"
  shows "advance s s''"
proof -
  from a obtain n1 m1 c1 r1 w1 e1 where 1: "map call (tasks s') = map call (tasks s) @ n1"
    "list_all (\<lambda>c. idsIssued s \<le> call_id c) n1"
    "errorMessages s' = errorMessages s @ m1"
    "toolCallsToAddToMessageHistory s' = toolCallsToAddToMessageHistory s @ c1"
    "toolResultsToAddToMessageHistory s' = toolResultsToAddToMessageHistory s @ r1"
    "map waitsOn (tasks s') = map waitsOn (tasks s) @ w1"
    "responseChunks s' = responseChunks s @ e1"
    unfolding advance_def by blast
  from b obtain n2 m2 c2 r2 w2 e2 where 2: "map call (tasks s'') = map call (tasks s') @ n2"
    "list_all (\<lambda>c. idsIssued s' \<le> call_id c) n2"
    "errorMessages s'' = errorMessages s' @ m2"
    "toolCallsToAddToMessageHistory s'' = toolCallsToAddToMessageHistory s' @ c2"
    "toolResultsToAddToMessageHistory s'' = toolResultsToAddToMessageHistory s' @ r2"
    "map waitsOn (tasks s'') = map waitsOn (tasks s') @ w2"
    "responseChunks s'' = responseChunks s' @ e2"
    unfolding advance_def by blast
  from a b have le: "idsIssued s \<le> idsIssued s'" "idsIssued s' \<le> idsIssued s''"
    by (simp_all add: advance_def)
  have "list_all (\<lambda>c. idsIssued s \<le> call_id c) n2"
    using 2(2) le(1) by (auto simp: list_all_iff)
  then have "map call (tasks s'') = map call (tasks s) @ (n1 @ n2)"
    "list_all (\<lambda>c. idsIssued s \<le> call_id c) (n1 @ n2)"
    "errorMessages s'' = errorMessages s @ (m1 @ m2)"
    "toolCallsToAddToMessageHistory s'' = toolCallsToAddToMessageHistory s @ (c1 @ c2)"
    "toolResultsToAddToMessageHistory s'' = toolResultsToAddToMessageHistory s @ (r1 @ r2)"
    "map waitsOn (tasks s'') = map waitsOn (tasks s) @ (w1 @ w2)"
    "responseChunks s'' = responseChunks s @ (e1 @ e2)"
    using 1 2 by simp_all
  then have ex: "(\<exists>new. map call (tasks s'') = map call (tasks s) @ new
             \<and> list_all (\<lambda>c. idsIssued s \<le> call_id c) new)
      \<and> (\<exists>new. map waitsOn (tasks s'') = map waitsOn (tasks s) @ new)
      \<and> (\<exists>more. errorMessages s'' = errorMessages s @ more)
      \<and> (\<exists>more. responseChunks s'' = responseChunks s @ more)
      \<and> (\<exists>n. toolCallsToAddToMessageHistory s'' = toolCallsToAddToMessageHistory s @ n)
      \<and> (\<exists>n. toolResultsToAddToMessageHistory s'' = toolResultsToAddToMessageHistory s @ n)"
    by blast
  from a b have rest: "(hadToolCallError s \<longrightarrow> hadToolCallError s'')
      \<and> (aborted s \<longrightarrow>
            aborted s'' \<and> idsIssued s'' = idsIssued s \<and> map call (tasks s'') = map call (tasks s))
      \<and> messageHistoryBeforeStream s'' = messageHistoryBeforeStream s"
    by (simp add: advance_def)
  show ?thesis unfolding advance_def using le ex rest by simp
qed

lemma progress_advance: "progress s s' \<Longrightarrow> advance s s'"
  by (auto simp: progress_def advance_def)

lemma advance_wake: "advance s (wake P s)"
  by (rule progress_advance) (rule wake_progress)

lemma advance_finalization [simp]: "advance s (finalization s') = advance s s'"
  by (simp add: advance_def finalization_def)

lemma advance_leave_loop: "advance s (leave_loop P s)"
proof (cases "aborted s")
  case True
  then show ?thesis by (simp add: leave_loop_def) (simp add: advance_def)
next
  case False
  let ?s = "s\<lparr>abortedAtExit := False, streamDoneResolved := True, phase := Draining\<rparr>"
  have "advance s ?s" by (simp add: advance_def)
  from advance_trans [OF this advance_wake] False show ?thesis
    by (simp add: leave_loop_def)
qed

lemma advance_onTagEnd: "advance s (snd (onTagEnd P toolName x inp s))"
proof (cases "aborted s")
  case True
  then show ?thesis by (simp add: onTagEnd_aborted)
next
  case na: False
  show ?thesis
  proof (cases "refusal P toolName inp")
    case (Some msg)
    show ?thesis unfolding onTagEnd_refused [OF na Some]
      using na by (simp add: advance_def)
  next
    case None
    obtain custom name inp' where ea: "executor_arguments P toolName inp = (custom, name, inp')"
      by (cases "executor_arguments P toolName inp") auto
    show ?thesis unfolding onTagEnd_accepted [OF na None ea]
      using na by (simp add: advance_def)
  qed
qed

lemma advance_react: "advance s (react P e s)"
proof (cases e)
  case Abort
  then show ?thesis by (simp add: advance_def)
next
  case (ParserText str)
  then show ?thesis by (simp add: advance_def parser_text_def onResponseChunk_def)
next
  case (ParserError msg)
  then show ?thesis by (simp add: advance_def parser_error_def onResponseChunk_def)
next
  case (TagEnd toolName inp)
  then show ?thesis by (simp add: advance_onTagEnd)
next
  case (XmlToolCall toolName inp)
  have "advance s (snd (executeXmlToolCall P toolName inp s))"
    by (simp add: executeXmlToolCall_def advance_onTagEnd)
  then have "advance s ((snd (executeXmlToolCall P toolName inp s))\<lparr>parserAwaits := q\<rparr>)" for q
    by (simp add: advance_def)
  then show ?thesis by (simp add: XmlToolCall split: prod.splits) (metis snd_conv)
next
  case (Yield chunk)
  let ?s1 = "case chunk of
                  ReasoningChunk str \<Rightarrow> onResponseChunk (ReasoningDelta str) s
                | TextChunk str \<Rightarrow>
                    (onResponseChunk (Chunk str) s)
                      \<lparr>fullResponseChunks := fullResponseChunks s @ [str]\<rparr>
                | ErrorChunk msg \<Rightarrow>
                    (onResponseChunk (ErrorEvent msg) s)
                      \<lparr>hadToolCallError := True,
                        errorMessages := errorMessages s
                          @ [userMessage (withSystemTags P (tool_call_error_text msg))]\<rparr>
                | ToolCallChunk toolName inp \<Rightarrow> s"
  have a1: "advance s ?s1"
    by (simp add: advance_def onResponseChunk_def split: stream_chunk.splits)
  from advance_trans [OF a1 advance_leave_loop] a1 show ?thesis
    by (simp add: Yield loop_body_def Let_def)
next
  case (Done chunk)
  let ?s1 = "s\<lparr>messageId := (case chunk of PromptAborted \<Rightarrow> None | PromptSuccess v \<Rightarrow> v
                                  | Bare v \<Rightarrow> v)\<rparr>"
  have a1: "advance s ?s1" by (simp add: advance_def)
  from advance_trans [OF a1 advance_leave_loop] show ?thesis
    by (simp add: Done loop_done_def)
next
  case (HandlerDone k v)
  have "map (call \<circ> (\<lambda>t. if call_id (call t) = k \<and> work t = None
                          then t\<lparr>work := Some v\<rparr> else t)) (tasks s) = map call (tasks s)"
    by (rule map_cong) auto
  note m = this
  have "map (waitsOn \<circ> (\<lambda>t. if call_id (call t) = k \<and> work t = None
                          then t\<lparr>work := Some v\<rparr> else t)) (tasks s) = map waitsOn (tasks s)"
    by (rule map_cong) auto
  note w = this
  show ?thesis by (simp add: HandlerDone advance_def handler_done_def m w)
qed

lemma advance_step: "advance s (step P s e)"
  using advance_trans [OF advance_react advance_wake] by (simp add: step_def)

lemma advance_steps: "advance s (foldl (step P) s es)"
proof (induction es arbitrary: s)
  case Nil
  show ?case by simp
next
  case (Cons e es)
  from advance_trans [OF advance_step Cons] show ?case by simp
qed


subsection \<open>A refused call leaves only an error behind\<close>

lemma processStream_append:
  "processStream P history fullResponse a (before @ e # after)
     = foldl (step P) (step P (processStream P history fullResponse a before) e) after"
  by (simp add: processStream_def)

lemma recorded_ids:
  assumes rc: "records_ok s"
  shows "set (map call_id (toolCallsToAddToMessageHistory s)) \<subseteq> set (map call_id (map call (tasks s)))"
    and "set (map result_id (toolResultsToAddToMessageHistory s))
           \<subseteq> set (map call_id (map call (tasks s)))"
  using rc by (auto simp: records_ok_def call_id_task)

text \<open>
  C3. A tool call that the executor refuses (its input fails the check, or its name is
  unknown and not spawnable), dispatched when the step is not aborted, has this effect and
  no other: one \<open>error\<close> event is added to the response, no execution is started and
  no tool call or tool result is recorded, the error flag is set, and the user message
  \<open>Error during tool call: <msg>. Please check the tool name and arguments and try again.\<close>
  (in system tags) is added to the error messages. Whatever follows in the step, the flag
  stays set, the message stays among the error messages, which the finalization puts
  after all tool messages, and the id issued for the call is the id of no recorded tool
  call or tool message.
\<close>

theorem refused_call_is_error_only:
  assumes s: "s = processStream P history fullResponse signalAborted before"
    and run: "parser_runs s" and na: "\<not> aborted s"
    and ref: "refusal P toolName inp = Some msg"
    and e: "e = TagEnd toolName inp \<or> e = XmlToolCall toolName inp"
    and sf: "sf = processStream P history fullResponse signalAborted (before @ e # after)"
  shows "responseChunks (react P e s) = responseChunks s @ [ErrorEvent msg]
     \<and> tasks (react P e s) = tasks s
     \<and> toolCalls (react P e s) = toolCalls s
     \<and> toolResults (react P e s) = toolResults s
     \<and> toolCallsToAddToMessageHistory (react P e s) = toolCallsToAddToMessageHistory s
     \<and> toolResultsToAddToMessageHistory (react P e s) = toolResultsToAddToMessageHistory s
     \<and> hadToolCallError (react P e s)
     \<and> errorMessages (react P e s) =
          errorMessages s
          @ [userMessage (withSystemTags P (''Error during tool call: '' @ msg
               @ ''. Please check the tool name and arguments and try again.''))]
     \<and> hadToolCallError sf
     \<and> (\<exists>more. errorMessages sf =
          errorMessages s
          @ [userMessage (withSystemTags P (''Error during tool call: '' @ msg
               @ ''. Please check the tool name and arguments and try again.''))]
          @ more)
     \<and> idsIssued s \<notin> set (map call_id (toolCallsToAddToMessageHistory sf))
     \<and> idsIssued s \<notin> set (map result_id (toolResultsToAddToMessageHistory sf))
     \<and> (phase sf = Committed \<longrightarrow>
           messageHistory sf =
             history @ assistantMessages sf
             @ map assistantToolCall (toolCallsToAddToMessageHistory sf)
             @ map ToolResult (toolResultsToAddToMessageHistory sf)
             @ errorMessages sf)"
proof -
  let ?r = "react P e s"
  let ?m = "userMessage (withSystemTags P (''Error during tool call: '' @ msg
               @ ''. Please check the tool name and arguments and try again.''))"
  have inv: "invariant history s" unfolding s by (rule processStream_invariant)
  have invf: "invariant history sf" unfolding sf by (rule processStream_invariant)
  note eq = onTagEnd_refused [OF na ref]
  have r: "responseChunks ?r = responseChunks s @ [ErrorEvent msg]"
    "tasks ?r = tasks s" "toolCalls ?r = toolCalls s" "toolResults ?r = toolResults s"
    "toolCallsToAddToMessageHistory ?r = toolCallsToAddToMessageHistory s"
    "toolResultsToAddToMessageHistory ?r = toolResultsToAddToMessageHistory s"
    "hadToolCallError ?r" "errorMessages ?r = errorMessages s @ [?m]"
    "idsIssued ?r = Suc (idsIssued s)"
    using e run na by (auto simp: eq executeXmlToolCall_def tool_call_error_text_def)
  from run have ph: "phase s \<noteq> Committed" by (simp add: parser_runs_def)
  have sf': "sf = foldl (step P) (wake P ?r) after"
    unfolding sf processStream_append s [symmetric] using ph by (simp add: step_def)
  have adv: "advance ?r sf"
    unfolding sf' by (rule advance_trans [OF advance_wake advance_steps])
  from adv r(7) have hf: "hadToolCallError sf" by (simp add: advance_def)
  from adv obtain more where "errorMessages sf = errorMessages ?r @ more"
    unfolding advance_def by blast
  then have ef: "\<exists>more. errorMessages sf = errorMessages s @ [?m] @ more"
    by (simp add: r)
  from adv obtain new where new: "map call (tasks sf) = map call (tasks ?r) @ new"
    "list_all (\<lambda>c. idsIssued ?r \<le> call_id c) new"
    unfolding advance_def by blast
  from inv have old: "\<forall>t \<in> set (tasks s). task_id t < idsIssued s"
    by (simp add: invariant_def spine_ok_def)
  have "idsIssued s \<notin> set (map call_id (map call (tasks sf)))"
    unfolding new(1) r using old new(2)
    by (auto simp: list_all_iff r call_id_task)
  with recorded_ids [of sf] invf
  have ids: "idsIssued s \<notin> set (map call_id (toolCallsToAddToMessageHistory sf))"
    "idsIssued s \<notin> set (map result_id (toolResultsToAddToMessageHistory sf))"
    by (auto simp: invariant_def)
  from invf have h: "phase sf = Committed \<longrightarrow>
           messageHistory sf =
             history @ assistantMessages sf
             @ map assistantToolCall (toolCallsToAddToMessageHistory sf)
             @ map ToolResult (toolResultsToAddToMessageHistory sf)
             @ errorMessages sf"
    by (simp add: invariant_def history_ok_def)
  show ?thesis using r(1-8) hf ef ids h by blast
qed


theorem refused_call_is_error_only_witness:
  "parser_runs (example_run (take 1 refused_spawn))
   \<and> \<not> aborted (example_run (take 1 refused_spawn))
   \<and> refusal example_params ''spawn_agents'' (JString ''not-an-array'')
       = Some ''Invalid parameters for spawn_agents''
   \<and> hadToolCallError (example_run refused_spawn)
   \<and> phase (example_run refused_spawn) = Committed
   \<and> responseChunks (example_run refused_spawn)
       = [TextEvent ''on it'', ErrorEvent ''Invalid parameters for spawn_agents'']
   \<and> messageHistory (example_run refused_spawn)
       = [UserMessage ''list files'',
          AssistantMessage [TextPart ''on it''],
          UserMessage ''<system>Error during tool call: Invalid parameters for spawn_agents. Please check the tool name and arguments and try again.</system>'']"
proof -
  have a: "parser_runs (example_run (take 1 refused_spawn))"
    and b: "\<not> aborted (example_run (take 1 refused_spawn))"
    and c: "refusal example_params ''spawn_agents'' (JString ''not-an-array'')
       = Some ''Invalid parameters for spawn_agents''"
    and d: "phase (example_run refused_spawn) = Committed"
    and e: "responseChunks (example_run refused_spawn)
       = [TextEvent ''on it'', ErrorEvent ''Invalid parameters for spawn_agents'']"
    and f: "messageHistory (example_run refused_spawn)
       = [UserMessage ''list files'',
          AssistantMessage [TextPart ''on it''],
          UserMessage ''<system>Error during tool call: Invalid parameters for spawn_agents. Please check the tool name and arguments and try again.</system>'']"
    and g: "refused_spawn = take 1 refused_spawn
         @ TagEnd ''spawn_agents'' (JString ''not-an-array'') # drop 2 refused_spawn"
    by code_simp+
  have sf: "example_run refused_spawn =
      processStream example_params [UserMessage ''list files''] [] False
        (take 1 refused_spawn
         @ TagEnd ''spawn_agents'' (JString ''not-an-array'') # drop 2 refused_spawn)"
    using g by (simp add: example_run_def)
  from refused_call_is_error_only [OF example_run_def a b c _ sf]
  have "hadToolCallError (example_run refused_spawn)" by blast
  with a b c d e f show ?thesis by simp
qed


subsection \<open>What an abort stops and what it lets through\<close>

lemma processStream_app:
  "processStream P history fullResponse a (before @ after)
     = foldl (step P) (processStream P history fullResponse a before) after"
  by (simp add: processStream_def)

lemma wake_committed [simp]: "phase s = Committed \<Longrightarrow> wake P s = s"
  by (simp add: wake_def)

lemma leave_loop_aborted:
  "aborted s \<Longrightarrow> leave_loop P s = finalization (s\<lparr>abortedAtExit := True\<rparr>)"
  by (simp add: leave_loop_def)

lemma finalization_phase [simp]: "phase (finalization s) = Committed"
  by (simp add: finalization_def)

lemma loop_exits_when_aborted:
  assumes "aborted s" "parser_runs s"
  shows "phase (step P s (Yield chunk)) = Committed"
    and "phase (step P s (Done r)) = Committed"
proof -
  from assms(2) have ph: "phase s \<noteq> Committed" by (simp add: parser_runs_def)
  have "phase (react P (Yield chunk) s) = Committed"
    using assms
    by (cases chunk) (simp_all add: loop_body_def leave_loop_aborted onResponseChunk_def)
  then show "phase (step P s (Yield chunk)) = Committed"
    using ph by (simp add: step_def)
  have "phase (react P (Done r) s) = Committed"
    using assms by (simp add: loop_done_def leave_loop_aborted)
  then show "phase (step P s (Done r)) = Committed"
    using ph by (simp add: step_def)
qed

text \<open>
  C6, as stated, fails: the history of an aborted step can hold a result recorded after
  the abort. Here an inline call is in flight when the signal is aborted; nothing is
  recorded at that moment, the handler then ends, the execution records its call and its
  result, and the finalization writes both into the history.
\<close>

theorem recorded_after_abort:
  "aborted (example_run (take 2 inflight_abort))
   \<and> toolCallsToAddToMessageHistory (example_run (take 2 inflight_abort)) = []
   \<and> toolResultsToAddToMessageHistory (example_run (take 2 inflight_abort)) = []
   \<and> phase (example_run inflight_abort) = Committed
   \<and> abortedAtExit (example_run inflight_abort)
   \<and> messageHistory (example_run inflight_abort)
       = [UserMessage ''list files'',
          AssistantMessage [ToolCallPart (ToolCall 0 ''read_files'' (JString ''a.ts''))],
          ToolResult (ToolMessage 0 ''read_files'' (JString ''x''))]"
  by code_simp

text \<open>
  C6, amended. Once the signal is aborted, a tool call that is parsed returns from
  \<open>onTagEnd\<close> and from \<open>executeXmlToolCall\<close> with the state as it was: no id is
  issued and no executor is called; the loop ends at the abort check of its next
  iteration; and in the rest of the step no id is issued and no execution is started. The
  finalization still rebuilds the history from the snapshot, with the tool calls and
  results recorded by then: those recorded before the abort, followed by those that the
  executions started before the abort recorded since.
\<close>

theorem aborted_step:
  assumes s: "s = processStream P history fullResponse signalAborted before"
    and ab: "aborted s"
    and sf: "sf = processStream P history fullResponse signalAborted (before @ after)"
  shows "onTagEnd P toolName x inp s = (None, s)
     \<and> executeXmlToolCall P toolName inp s = (None, s)
     \<and> (parser_runs s \<longrightarrow>
           phase (step P s (Yield chunk)) = Committed \<and> phase (step P s (Done r)) = Committed)
     \<and> idsIssued sf = idsIssued s
     \<and> map call (tasks sf) = map call (tasks s)
     \<and> (phase sf = Committed \<longrightarrow>
           messageHistory sf =
             history @ assistantMessages sf
             @ map assistantToolCall (toolCallsToAddToMessageHistory sf)
             @ map ToolResult (toolResultsToAddToMessageHistory sf)
             @ errorMessages sf)
     \<and> (\<exists>n. toolCallsToAddToMessageHistory sf = toolCallsToAddToMessageHistory s @ n)
     \<and> (\<exists>n. toolResultsToAddToMessageHistory sf = toolResultsToAddToMessageHistory s @ n)
     \<and> set (toolCallsToAddToMessageHistory sf) \<subseteq> set (map call (tasks s))
     \<and> set (map result_id (toolResultsToAddToMessageHistory sf))
          \<subseteq> set (map call_id (map call (tasks s)))"
proof -
  have invf: "invariant history sf" unfolding sf by (rule processStream_invariant)
  have adv: "advance s sf"
    unfolding sf processStream_app s [symmetric] by (rule advance_steps)
  from adv ab have same: "idsIssued sf = idsIssued s" "map call (tasks sf) = map call (tasks s)"
    by (simp_all add: advance_def)
  from adv have grow:
    "\<exists>n. toolCallsToAddToMessageHistory sf = toolCallsToAddToMessageHistory s @ n"
    "\<exists>n. toolResultsToAddToMessageHistory sf = toolResultsToAddToMessageHistory s @ n"
    by (simp_all add: advance_def)
  from invf have rc: "records_ok sf" by (simp add: invariant_def)
  then have "set (toolCallsToAddToMessageHistory sf) \<subseteq> set (map call (tasks sf))"
    by (auto simp: records_ok_def)
  then have sub1: "set (toolCallsToAddToMessageHistory sf) \<subseteq> set (map call (tasks s))"
    by (simp only: same)
  have sub2: "set (map result_id (toolResultsToAddToMessageHistory sf))
          \<subseteq> set (map call_id (map call (tasks s)))"
    using recorded_ids(2) [OF rc] by (simp only: same)
  from invf have h: "phase sf = Committed \<longrightarrow>
           messageHistory sf =
             history @ assistantMessages sf
             @ map assistantToolCall (toolCallsToAddToMessageHistory sf)
             @ map ToolResult (toolResultsToAddToMessageHistory sf)
             @ errorMessages sf"
    by (simp add: invariant_def history_ok_def)
  have d: "onTagEnd P toolName x inp s = (None, s)"
    "executeXmlToolCall P toolName inp s = (None, s)"
    using ab by (simp_all add: onTagEnd_aborted executeXmlToolCall_def)
  show ?thesis
    using d loop_exits_when_aborted(1) [OF ab, of P chunk]
      loop_exits_when_aborted(2) [OF ab, of P r] same h grow sub1 sub2 by blast
qed

theorem aborted_step_witness:
  "aborted (example_run (take 2 inflight_abort))
   \<and> onTagEnd example_params ''end_turn'' True JNull (example_run (take 3 inflight_abort))
       = (None, example_run (take 3 inflight_abort))
   \<and> parser_runs (example_run (take 3 inflight_abort))
   \<and> phase (step example_params (example_run (take 3 inflight_abort)) (Yield (TextChunk ''late'')))
       = Committed
   \<and> idsIssued (example_run (take 2 inflight_abort)) = 1
   \<and> idsIssued (example_run inflight_abort) = 1
   \<and> phase (example_run inflight_abort) = Committed
   \<and> toolCallsToAddToMessageHistory (example_run inflight_abort)
       = [ToolCall 0 ''read_files'' (JString ''a.ts'')]"
proof -
  have a: "aborted (example_run (take 2 inflight_abort))"
    and a3: "aborted (example_run (take 3 inflight_abort))"
    and p: "parser_runs (example_run (take 3 inflight_abort))"
    and i: "idsIssued (example_run (take 2 inflight_abort)) = 1"
    and c: "phase (example_run inflight_abort) = Committed"
    and t: "toolCallsToAddToMessageHistory (example_run inflight_abort)
       = [ToolCall 0 ''read_files'' (JString ''a.ts'')]"
    and g: "inflight_abort = take 2 inflight_abort @ drop 2 inflight_abort"
    by code_simp+
  have sf: "example_run inflight_abort =
      processStream example_params [UserMessage ''list files''] [] False
        (take 2 inflight_abort @ drop 2 inflight_abort)"
    by (simp add: example_run_def)
  have sf3: "example_run inflight_abort =
      processStream example_params [UserMessage ''list files''] [] False
        (take 3 inflight_abort @ drop 3 inflight_abort)"
    by (simp add: example_run_def)
  from aborted_step [OF example_run_def a sf] i
  have i': "idsIssued (example_run inflight_abort) = 1" by simp
  from aborted_step [OF example_run_def a3 sf3, of "''end_turn''" True JNull
      "TextChunk ''late''"] p
  have "onTagEnd example_params ''end_turn'' True JNull (example_run (take 3 inflight_abort))
       = (None, example_run (take 3 inflight_abort))"
    and "phase (step example_params (example_run (take 3 inflight_abort))
           (Yield (TextChunk ''late''))) = Committed"
    by blast+
  with a p i i' c t show ?thesis by simp
qed

subsection \<open>An inline call is awaited before the stream goes on\<close>

lemma settle_step_parserAwaits [simp]: "parserAwaits (settle_step P s) = parserAwaits s"
  using settle_step_cases [of P s]
  by (auto simp: ready_def record_result_fields)

lemma settle_parserAwaits [simp]: "parserAwaits (settle P s) = parserAwaits s"
proof -
  have "parserAwaits ((settle_step P ^^ n) s) = parserAwaits s" for n by (induction n) auto
  then show ?thesis by (simp add: settle_def)
qed

lemma resolved_has_result:
  assumes rc: "records_ok s" and r: "resolved s (ToolPromise k)"
  shows "has_result k s"
proof -
  from r obtain t where t: "t \<in> set (tasks s)" "call_id (call t) = k" "settled t"
    by (auto simp: resolved_def)
  let ?e = "ToolResultEvent (task_id t) (call_name (call t)) (output_of t)"
  have "?e \<in> set (concat (map events_of (filter settled (tasks s))))"
    using t by (auto simp: events_of_def)
  with rc have "?e \<in> set (filter is_tool_event (responseChunks s))"
    by (simp add: records_ok_def)
  then have "?e \<in> set (responseChunks s)" by simp
  moreover have "is_result_of k ?e" using t(2) by (simp add: task_id_def)
  ultimately show ?thesis unfolding has_result_def list_ex_iff by blast
qed

lemma has_result_advance: "advance s s' \<Longrightarrow> has_result k s \<Longrightarrow> has_result k s'"
  by (auto simp: advance_def has_result_def list_ex_iff)

lemma wake_suspended:
  assumes inv: "invariant history r" and ph: "phase r = Streaming"
    and pa: "parserAwaits r = Some (ToolPromise k)"
    and same: "assistantMessages r = assistantMessages s0"
      "fullResponseChunks r = fullResponseChunks s0" "errorMessages r = errorMessages s0"
    and ev: "\<exists>evs. responseChunks r = responseChunks s0 @ evs \<and> list_all is_tool_event evs"
  shows "suspended_until_result k s0 (wake P r)"
proof -
  let ?s1 = "settle P r"
  have p: "progress r ?s1" by (rule settle_progress)
  have i1: "invariant history ?s1" using inv ph by (intro settle_invariant) simp_all
  from ev obtain evs where evs: "responseChunks r = responseChunks s0 @ evs"
    "list_all is_tool_event evs" by blast
  from p obtain evs' where evs': "responseChunks ?s1 = responseChunks r @ evs'"
    "list_all is_tool_event evs'" unfolding progress_def by blast
  have ev1: "\<exists>evs. responseChunks ?s1 = responseChunks s0 @ evs \<and> list_all is_tool_event evs"
    using evs evs' by (intro exI [of _ "evs @ evs'"]) simp
  from p same have same1: "assistantMessages ?s1 = assistantMessages s0"
      "fullResponseChunks ?s1 = fullResponseChunks s0" "errorMessages ?s1 = errorMessages s0"
    by (simp_all add: progress_def)
  show ?thesis
  proof (cases "resolved ?s1 (ToolPromise k)")
    case True
    from i1 have "records_ok ?s1" by (simp add: invariant_def)
    from resolved_has_result [OF this True] have hr: "has_result k ?s1" .
    have "advance ?s1 (wake P r)"
      using True ph pa by (simp add: wake_def Let_def advance_def)
    from has_result_advance [OF this hr] show ?thesis
      by (simp add: suspended_until_result_def)
  next
    case False
    then have "wake P r = ?s1" using ph pa by (simp add: wake_def Let_def)
    then show ?thesis
      using ph pa same1 ev1 by (simp add: suspended_until_result_def)
  qed
qed

lemma react_while_suspended:
  assumes ph: "phase s = Streaming" and pa: "parserAwaits s = Some q"
  shows "phase (react P e s) = Streaming" "parserAwaits (react P e s) = Some q"
    "assistantMessages (react P e s) = assistantMessages s"
    "fullResponseChunks (react P e s) = fullResponseChunks s"
    "errorMessages (react P e s) = errorMessages s"
    "responseChunks (react P e s) = responseChunks s"
  using assms by (cases e; simp add: parser_runs_def handler_done_def)+

lemma suspended_step:
  assumes inv: "invariant history s" and su: "suspended_until_result k s0 s"
  shows "suspended_until_result k s0 (step P s e)"
proof (cases "has_result k s")
  case True
  from has_result_advance [OF advance_step True] show ?thesis
    by (simp add: suspended_until_result_def)
next
  case False
  with su have b: "phase s = Streaming" "parserAwaits s = Some (ToolPromise k)"
    "assistantMessages s = assistantMessages s0" "fullResponseChunks s = fullResponseChunks s0"
    "errorMessages s = errorMessages s0"
    "\<exists>evs. responseChunks s = responseChunks s0 @ evs \<and> list_all is_tool_event evs"
    by (simp_all add: suspended_until_result_def)
  note r = react_while_suspended [OF b(1,2), of P e]
  have i: "invariant history (react P e s)" using inv b(1) by (intro react_invariant) simp_all
  have "suspended_until_result k s0 (wake P (react P e s))"
    by (rule wake_suspended [OF i r(1,2)]) (simp_all add: r b)
  then show ?thesis using b(1) by (simp add: step_def)
qed

lemma suspended_steps:
  "invariant history s \<Longrightarrow> suspended_until_result k s0 s \<Longrightarrow>
   suspended_until_result k s0 (foldl (step P) s es)"
  by (induction es arbitrary: s) (simp_all add: suspended_step step_invariant)

text \<open>
  C7. Dispatched while the step is not aborted, a structured call is not awaited:
  \<open>onTagEnd\<close> runs to its end and the parser goes on. An inline call is awaited:
  \<open>executeXmlToolCall\<close> is left awaiting the tool promise, the one stored in
  \<open>previousToolCallFinished\<close>, and the parser is suspended on it. For an accepted inline
  call, whatever happens afterwards: until the \<open>tool_result\<close> event of the call has been
  emitted, the parser stays suspended and nothing is emitted or recorded but the tool
  events of executions; so a text that follows the closing tag comes after the result.
\<close>

theorem inline_call_is_awaited:
  assumes s: "s = processStream P history fullResponse signalAborted before"
    and run: "parser_runs s" and na: "\<not> aborted s"
  shows "fst (onTagEnd P toolName False inp s) = None
     \<and> parserAwaits (react P (TagEnd toolName inp) s) = None
     \<and> fst (executeXmlToolCall P toolName inp s)
         = Some (previousToolCallFinished (snd (executeXmlToolCall P toolName inp s)))
     \<and> parserAwaits (react P (XmlToolCall toolName inp) s)
         = Some (previousToolCallFinished (react P (XmlToolCall toolName inp) s))
     \<and> (refusal P toolName inp = None \<longrightarrow>
          previousToolCallFinished (react P (XmlToolCall toolName inp) s)
            = ToolPromise (idsIssued s)
          \<and> suspended_until_result (idsIssued s) s
               (foldl (step P) (step P s (XmlToolCall toolName inp)) after))"
proof -
  have inv: "invariant history s" unfolding s by (rule processStream_invariant)
  from run have ph: "phase s = Streaming" and pa: "parserAwaits s = None"
    by (simp_all add: parser_runs_def)
  obtain custom name inp' where ea: "executor_arguments P toolName inp = (custom, name, inp')"
    by (cases "executor_arguments P toolName inp") auto
  have a: "fst (onTagEnd P toolName False inp s) = None"
    by (cases "refusal P toolName inp")
       (simp_all add: onTagEnd_refused [OF na] onTagEnd_accepted [OF na _ ea])
  have b: "parserAwaits (react P (TagEnd toolName inp) s) = None"
    using run pa
    by (cases "refusal P toolName inp")
       (simp_all add: onTagEnd_refused [OF na] onTagEnd_accepted [OF na _ ea])
  have c: "fst (executeXmlToolCall P toolName inp s)
         = Some (previousToolCallFinished (snd (executeXmlToolCall P toolName inp s)))"
    using na
    by (cases "refusal P toolName inp")
       (simp_all add: executeXmlToolCall_def onTagEnd_refused [OF na]
          onTagEnd_accepted [OF na _ ea])
  have d: "parserAwaits (react P (XmlToolCall toolName inp) s)
         = Some (previousToolCallFinished (react P (XmlToolCall toolName inp) s))"
    using na run
    by (cases "refusal P toolName inp")
       (simp_all add: executeXmlToolCall_def onTagEnd_refused [OF na]
          onTagEnd_accepted [OF na _ ea])
  have e: "previousToolCallFinished (react P (XmlToolCall toolName inp) s)
            = ToolPromise (idsIssued s)
          \<and> suspended_until_result (idsIssued s) s
               (foldl (step P) (step P s (XmlToolCall toolName inp)) after)"
    if acc: "refusal P toolName inp = None"
  proof -
    let ?r = "react P (XmlToolCall toolName inp) s"
    note eq = onTagEnd_accepted [OF na acc ea, of True]
    have r: "phase ?r = Streaming" "parserAwaits ?r = Some (ToolPromise (idsIssued s))"
      "assistantMessages ?r = assistantMessages s" "fullResponseChunks ?r = fullResponseChunks s"
      "errorMessages ?r = errorMessages s" "responseChunks ?r = responseChunks s"
      "previousToolCallFinished ?r = ToolPromise (idsIssued s)"
      using na run ph by (simp_all add: executeXmlToolCall_def eq)
    have i: "invariant history ?r" using inv ph by (intro react_invariant) simp_all
    have ev: "\<exists>evs. responseChunks ?r = responseChunks s @ evs \<and> list_all is_tool_event evs"
      unfolding r(6) by simp
    have "suspended_until_result (idsIssued s) s (wake P ?r)"
      by (rule wake_suspended [OF i r(1,2) r(3) r(4) r(5) ev])
    then have s1: "suspended_until_result (idsIssued s) s (step P s (XmlToolCall toolName inp))"
      using ph by (simp add: step_def)
    have "invariant history (step P s (XmlToolCall toolName inp))"
      using inv by (rule step_invariant)
    from suspended_steps [OF this s1] r(7) show ?thesis by simp
  qed
  show ?thesis using a b c d e by blast
qed


theorem inline_call_is_awaited_witness:
  "parser_runs (example_run [])
   \<and> \<not> aborted (example_run [])
   \<and> refusal example_params ''read_files'' (JString ''a.ts'') = None
   \<and> \<not> has_result 0 (example_run (take 2 inline_first))
   \<and> parserAwaits (example_run (take 2 inline_first)) = Some (ToolPromise 0)
   \<and> assistantMessages (example_run (take 2 inline_first)) = []
   \<and> responseChunks (example_run (take 2 inline_first)) = []
   \<and> has_result 0 (example_run (take 4 inline_first))
   \<and> responseChunks (example_run (take 4 inline_first))
       = [ToolCallEvent 0 ''read_files'' (JString ''a.ts''),
          ToolResultEvent 0 ''read_files'' (JString ''x''),
          TextEvent ''after the tag'']"
proof -
  have a: "parser_runs (example_run [])" and b: "\<not> aborted (example_run [])"
    and c: "refusal example_params ''read_files'' (JString ''a.ts'') = None"
    and d: "\<not> has_result 0 (example_run (take 2 inline_first))"
    and e: "responseChunks (example_run (take 2 inline_first)) = []"
    and f: "has_result 0 (example_run (take 4 inline_first))"
    and g: "responseChunks (example_run (take 4 inline_first))
       = [ToolCallEvent 0 ''read_files'' (JString ''a.ts''),
          ToolResultEvent 0 ''read_files'' (JString ''x''),
          TextEvent ''after the tag'']"
    and i: "idsIssued (example_run []) = 0"
    and m: "assistantMessages (example_run []) = []"
    by code_simp+
  have run2: "example_run (take 2 inline_first)
      = foldl (step example_params)
          (step example_params (example_run []) (XmlToolCall ''read_files'' (JString ''a.ts'')))
          [ParserText ''too early'']"
    by (simp add: example_run_def processStream_def inline_first_def)
  from inline_call_is_awaited [OF example_run_def a b, of "''read_files''" "JString ''a.ts''"
      "[ParserText ''too early'']"] c i
  have "suspended_until_result 0 (example_run []) (example_run (take 2 inline_first))"
    unfolding run2 by simp
  with d m have "parserAwaits (example_run (take 2 inline_first)) = Some (ToolPromise 0)"
    and "assistantMessages (example_run (take 2 inline_first)) = []"
    by (simp_all add: suspended_until_result_def)
  with a b c d e f g show ?thesis by simp
qed

subsection \<open>What the first call of a step is chained on\<close>







end
